theory Spec2Isabelle
  imports Main
begin

section \<open>Values, errors and callbacks\<close>

text \<open>
  Python objects that an attribute can hold. \<open>PObject k\<close> is an instance made by
  \<^verbatim>\<open>object()\<close>, known by its identity \<open>k\<close> only: it is equal to itself and to
  nothing else. The module makes two of them when it is imported,
  \<^verbatim>\<open>SENTINEL = object()\<close> and \<^verbatim>\<open>DELETED = object()\<close>.
\<close>

datatype pyval = PNone | PBool bool | PInt int | PStr string | PObject nat

definition SENTINEL :: pyval where
  "SENTINEL = PObject 0"

definition DELETED :: pyval where
  "DELETED = PObject 1"

datatype error =
    AttributeError
  | KeyError
  | TypeError
  | CancelledError
  | StopAsyncIteration
  | CallbackError nat
  | HandlerError

text \<open>
  The members of a subscriber set are callables. \<open>BridgeSend i\<close> is the bound method
  \<^verbatim>\<open>s.send\<close> of the generator \<^verbatim>\<open>s = state(...)\<close> of bridge \<open>i\<close>, the only callable
  that \<^verbatim>\<open>observe\<close> registers. \<open>Spy k\<close> and \<open>Faulty k\<close> stand for callables that
  client code placed in the set: one that returns, one that raises.
\<close>

datatype callback = BridgeSend nat | Spy nat | Faulty nat

fun raises :: "callback \<Rightarrow> bool" where
  "raises (Faulty k) = True"
| "raises (BridgeSend i) = False"
| "raises (Spy k) = False"

section \<open>The generator \<^verbatim>\<open>state\<close>: one slot and one signal\<close>

text \<open>
  \<^verbatim>\<open>state(event, sentinel, value=None)\<close> holds the local \<^verbatim>\<open>value\<close> (the slot) and the
  event (the signal). What is sent in is either the private object \<^verbatim>\<open>read\<close>, which no
  caller outside \<^verbatim>\<open>observe\<close> can obtain, or a value delivered by a dispatch.
\<close>

record bridge =
  slot :: pyval
  signal :: bool

datatype update = Read | Put pyval

definition state_init :: bridge where
  "state_init = \<lparr>slot = PNone, signal = False\<rparr>"

fun state_send :: "bridge \<Rightarrow> update \<Rightarrow> bridge \<times> pyval" where
  "state_send b Read = (b\<lparr>signal := False\<rparr>, slot b)"
| "state_send b (Put v) = (b\<lparr>slot := v, signal := True\<rparr>, v)"

section \<open>The observable entity\<close>

text \<open>
  \<open>attrs\<close> maps an attribute name to its current value and is undefined where the
  name has none (for an entity whose class adds no defaults or properties of its own,
  the instance dictionary without the key \<^verbatim>\<open>SENTINEL\<close>); \<open>registry\<close> is
  \<^verbatim>\<open>__dict__[SENTINEL]\<close>, absent until \<^verbatim>\<open>__init__\<close> has run. A subscriber set is a
  list without repetition: its order is the order in which Python iterates the set,
  which the source leaves open. \<open>bridges\<close> holds the state of every generator
  \<^verbatim>\<open>state\<close>, \<open>fresh\<close> is the next unused bridge identity. \<open>trace\<close> is not in the
  source: it records every call \<^verbatim>\<open>function(value)\<close> of a fan-out, with the callable,
  the argument and the attributes as they are at the call.
\<close>

datatype call = Call (target: callback) (arg: pyval) (seen: "string \<rightharpoonup> pyval")

record world =
  attrs :: "string \<rightharpoonup> pyval"
  registry :: "(string \<rightharpoonup> callback list) option"
  bridges :: "nat \<Rightarrow> bridge"
  fresh :: nat
  trace :: "call list"

definition uninitialised :: world where
  "uninitialised =
     \<lparr>attrs = Map.empty, registry = None, bridges = (\<lambda>i. state_init), fresh = 0, trace = []\<rparr>"

definition init :: "world \<Rightarrow> world" where
  "init w = w\<lparr>registry := Some Map.empty\<rparr>"

text \<open>The subscribers of a name, in iteration order; none when there is no set.\<close>

definition subscribers :: "world \<Rightarrow> string \<Rightarrow> callback list" where
  "subscribers w name =
     (case registry w of None \<Rightarrow> []
      | Some r \<Rightarrow> (case r name of None \<Rightarrow> [] | Some fs \<Rightarrow> fs))"

text \<open>One call \<^verbatim>\<open>function(value)\<close>.\<close>

fun invoke :: "callback \<Rightarrow> pyval \<Rightarrow> world \<Rightarrow> (error + unit) \<times> world" where
  "invoke (BridgeSend i) v w =
     (Inr (), w\<lparr>bridges := (bridges w)(i := fst (state_send (bridges w i) (Put v))),
                trace := trace w @ [Call (BridgeSend i) v (attrs w)]\<rparr>)"
| "invoke (Spy k) v w =
     (Inr (), w\<lparr>trace := trace w @ [Call (Spy k) v (attrs w)]\<rparr>)"
| "invoke (Faulty k) v w =
     (Inl (CallbackError k), w\<lparr>trace := trace w @ [Call (Faulty k) v (attrs w)]\<rparr>)"

text \<open>\<^verbatim>\<open>for function in o: function(value)\<close>: an exception leaves the loop.\<close>

fun dispatch :: "callback list \<Rightarrow> pyval \<Rightarrow> world \<Rightarrow> (error + unit) \<times> world" where
  "dispatch [] v w = (Inr (), w)"
| "dispatch (f # fs) v w =
     (case invoke f v w of
        (Inl e, w') \<Rightarrow> (Inl e, w')
      | (Inr u, w') \<Rightarrow> dispatch fs v w')"

text \<open>
  The guard of \<^verbatim>\<open>__setattr__\<close> and \<^verbatim>\<open>__delattr__\<close>:
  \<^verbatim>\<open>SENTINEL in (o := self.__dict__) and (o := o[SENTINEL].get(name))\<close>, then the loop.
  An empty set is false in Python, so the loop is entered for a non-empty set only.
\<close>

definition fan_out :: "string \<Rightarrow> pyval \<Rightarrow> world \<Rightarrow> (error + unit) \<times> world" where
  "fan_out name v w =
     (case registry w of
        None \<Rightarrow> (Inr (), w)
      | Some r \<Rightarrow>
          (case r name of
             None \<Rightarrow> (Inr (), w)
           | Some fs \<Rightarrow> if fs = [] then (Inr (), w) else dispatch fs v w))"

definition setattr :: "string \<Rightarrow> pyval \<Rightarrow> world \<Rightarrow> (error + unit) \<times> world" where
  "setattr name v w = fan_out name v (w\<lparr>attrs := (attrs w)(name \<mapsto> v)\<rparr>)"

definition delattr :: "string \<Rightarrow> world \<Rightarrow> (error + unit) \<times> world" where
  "delattr name w =
     (case attrs w name of
        None \<Rightarrow> (Inl AttributeError, w)
      | Some old \<Rightarrow> fan_out name DELETED (w\<lparr>attrs := (attrs w)(name := None)\<rparr>))"

text \<open>
  \<^verbatim>\<open>notify\<close>: the inner loop counts each call after it has returned; the outer loop
  looks the registry up for every name, skips a name whose set is absent or empty, and
  reads the attribute with \<^verbatim>\<open>getattr\<close> only after that test.
\<close>

fun notify_calls :: "callback list \<Rightarrow> pyval \<Rightarrow> nat \<Rightarrow> world \<Rightarrow> (error + nat) \<times> world" where
  "notify_calls [] v count w = (Inr count, w)"
| "notify_calls (f # fs) v count w =
     (case invoke f v w of
        (Inl e, w') \<Rightarrow> (Inl e, w')
      | (Inr u, w') \<Rightarrow> notify_calls fs v (count + 1) w')"

fun notify_names :: "string list \<Rightarrow> nat \<Rightarrow> world \<Rightarrow> (error + nat) \<times> world" where
  "notify_names [] count w = (Inr count, w)"
| "notify_names (name # names) count w =
     (case registry w of
        None \<Rightarrow> (Inl KeyError, w)
      | Some r \<Rightarrow>
          (case r name of
             None \<Rightarrow> notify_names names count w
           | Some fs \<Rightarrow>
               if fs = [] then notify_names names count w
               else (case attrs w name of
                       None \<Rightarrow> (Inl AttributeError, w)
                     | Some v \<Rightarrow>
                         (case notify_calls fs v count w of
                            (Inl e, w') \<Rightarrow> (Inl e, w')
                          | (Inr c, w') \<Rightarrow> notify_names names c w'))))"

definition notify :: "string list \<Rightarrow> world \<Rightarrow> (error + nat) \<times> world" where
  "notify names w = notify_names names 0 w"

text \<open>
  The calls a fan-out over \<open>fs\<close> makes: every callable up to and including the first
  one that raises.
\<close>

fun reached :: "callback list \<Rightarrow> callback list" where
  "reached [] = []"
| "reached (f # fs) = (if raises f then [f] else f # reached fs)"

text \<open>The calls made between two worlds: what the later trace has beyond the earlier.\<close>

definition new_calls :: "world \<Rightarrow> world \<Rightarrow> call list" where
  "new_calls w w' = drop (length (trace w)) (trace w')"

section \<open>The asynchronous generator \<^verbatim>\<open>observe\<close>\<close>

text \<open>
  The generator object is \<open>Created\<close> until its first \<^verbatim>\<open>__anext__\<close>; it is then suspended
  either at \<^verbatim>\<open>await signal.wait()\<close> (\<open>Waiting\<close>) or at \<^verbatim>\<open>yield\<close> (\<open>Yielded\<close>), until it
  is \<open>Closed\<close>. \<open>obridge\<close> is the identity of its generator \<^verbatim>\<open>state\<close>, given at the
  first \<^verbatim>\<open>__anext__\<close>.
\<close>

datatype phase = Created | Waiting | Yielded | Closed

record observer =
  oname :: string
  obridge :: nat
  ophase :: phase

definition observe :: "string \<Rightarrow> observer" where
  "observe name = \<lparr>oname = name, obridge = 0, ophase = Created\<rparr>"

text \<open>
  \<^verbatim>\<open>observable.__dict__[SENTINEL][name].add(s.send)\<close>: a \<^verbatim>\<open>KeyError\<close> without the
  registry; the \<^verbatim>\<open>defaultdict\<close> makes the set of a new name; adding a member twice
  changes nothing.
\<close>

definition add_subscriber :: "string \<Rightarrow> callback \<Rightarrow> world \<Rightarrow> (error + unit) \<times> world" where
  "add_subscriber name f w =
     (case registry w of
        None \<Rightarrow> (Inl KeyError, w)
      | Some r \<Rightarrow>
          (let fs = (case r name of None \<Rightarrow> [] | Some fs \<Rightarrow> fs)
           in (Inr (), w\<lparr>registry := Some (r(name \<mapsto> (if f \<in> set fs then fs else fs @ [f])))\<rparr>)))"

text \<open>
  The \<^verbatim>\<open>finally\<close> block:
  \<^verbatim>\<open>if (o := observable.__dict__.get(SENTINEL)) and (o := o.get(name)): o.discard(s.send)\<close>.
  A registry that is an empty dictionary is false, and then it has no set for \<open>name\<close>
  either, so the first test is covered by the second.
\<close>

definition observe_finally :: "observer \<Rightarrow> world \<Rightarrow> world" where
  "observe_finally ob w =
     (case registry w of
        None \<Rightarrow> w
      | Some r \<Rightarrow>
          (case r (oname ob) of
             None \<Rightarrow> w
           | Some fs \<Rightarrow>
               if fs = [] then w
               else w\<lparr>registry := Some (r(oname ob \<mapsto> removeAll (BridgeSend (obridge ob)) fs))\<rparr>))"

text \<open>
  The head of the loop, \<^verbatim>\<open>await signal.wait()\<close> then \<^verbatim>\<open>yield s.send(read)\<close>: with the
  signal set the value is read and yielded (\<open>Some v\<close>), otherwise the generator stays
  suspended on the wait (\<open>None\<close>).
\<close>

definition observe_wait :: "observer \<Rightarrow> world \<Rightarrow> (error + pyval option) \<times> observer \<times> world" where
  "observe_wait ob w =
     (let i = obridge ob in
      if signal (bridges w i)
      then (case state_send (bridges w i) Read of
              (b, v) \<Rightarrow> (Inr (Some v), ob\<lparr>ophase := Yielded\<rparr>, w\<lparr>bridges := (bridges w)(i := b)\<rparr>))
      else (Inr None, ob\<lparr>ophase := Waiting\<rparr>, w))"

text \<open>
  The first \<^verbatim>\<open>__anext__\<close>: \<^verbatim>\<open>s = state(signal := factory(), read := object())\<close>,
  \<^verbatim>\<open>s.send(None)\<close>, then inside \<^verbatim>\<open>try\<close> the registration and the loop.
\<close>

definition observe_start :: "observer \<Rightarrow> world \<Rightarrow> (error + pyval option) \<times> observer \<times> world" where
  "observe_start ob w =
     (let i = fresh w;
          w1 = w\<lparr>bridges := (bridges w)(i := state_init), fresh := Suc i\<rparr>;
          ob1 = ob\<lparr>obridge := i\<rparr>
      in case add_subscriber (oname ob1) (BridgeSend i) w1 of
           (Inl e, w2) \<Rightarrow> (Inl e, ob1\<lparr>ophase := Closed\<rparr>, observe_finally ob1 w2)
         | (Inr u, w2) \<Rightarrow> observe_wait ob1 w2)"

text \<open>\<^verbatim>\<open>__anext__\<close>, and the resumption of a generator that waits.\<close>

definition observe_next :: "observer \<Rightarrow> world \<Rightarrow> (error + pyval option) \<times> observer \<times> world" where
  "observe_next ob w =
     (case ophase ob of
        Created \<Rightarrow> observe_start ob w
      | Waiting \<Rightarrow> observe_wait ob w
      | Yielded \<Rightarrow> observe_wait ob w
      | Closed \<Rightarrow> (Inl StopAsyncIteration, ob, w))"

text \<open>
  The ways the generator is left: \<open>Cancel\<close> is \<^verbatim>\<open>CancelledError\<close> raised at the
  \<^verbatim>\<open>await\<close> when the consumer is cancelled while it waits for a value, \<open>Throw e\<close> an
  exception thrown in at the \<^verbatim>\<open>yield\<close>, \<open>Close\<close> is \<^verbatim>\<open>aclose()\<close>. No consumer in the
  source calls \<^verbatim>\<open>aclose()\<close>: a consumer that ends outside the generator's wait leaves
  the generator suspended, and \<open>Close\<close> comes only when the abandoned generator is
  finalized. A generator whose body was never entered has no \<^verbatim>\<open>finally\<close> to run.
\<close>

datatype exit_path = Cancel | Throw error | Close

fun exit_result :: "exit_path \<Rightarrow> error + unit" where
  "exit_result Cancel = Inl CancelledError"
| "exit_result (Throw e) = Inl e"
| "exit_result Close = Inr ()"

definition observe_exit :: "exit_path \<Rightarrow> observer \<Rightarrow> world \<Rightarrow> (error + unit) \<times> observer \<times> world" where
  "observe_exit p ob w =
     (case ophase ob of
        Created \<Rightarrow> (exit_result p, ob\<lparr>ophase := Closed\<rparr>, w)
      | Waiting \<Rightarrow> (exit_result p, ob\<lparr>ophase := Closed\<rparr>, observe_finally ob w)
      | Yielded \<Rightarrow> (exit_result p, ob\<lparr>ophase := Closed\<rparr>, observe_finally ob w)
      | Closed \<Rightarrow> (exit_result p, ob, w))"

section \<open>Handlers, and the marks the drivers leave\<close>

text \<open>
  What \<^verbatim>\<open>function(value)\<close> gives a driver: a result that is not awaitable, a coroutine
  object, an awaitable that is not a coroutine (a future, say), or an exception.
\<close>

datatype hresult = NotAwaitable | Coroutine | OtherAwaitable | HRaise

text \<open>
  The drivers' logs are not in the source. A sequential driver marks where a handler
  invocation begins and where it ends, with the value; an exclusive driver marks where
  a task is created (\<open>Begin\<close>) and where \<^verbatim>\<open>task.cancel\<close> is called on it (\<open>End\<close>).
  A log alternates when every \<open>Begin\<close> but the last is followed at once by its \<open>End\<close>;
  \<open>pending\<close> is the \<open>Begin\<close> that still lacks its \<open>End\<close>.
\<close>

datatype 'a mark = Begin 'a | End 'a

fun alternates :: "'a mark list \<Rightarrow> bool" where
  "alternates [] = True"
| "alternates [Begin a] = True"
| "alternates (Begin a # End b # rest) = (a = b \<and> alternates rest)"
| "alternates (Begin a # Begin b # rest) = False"
| "alternates (End a # rest) = False"

fun pending :: "'a mark list \<Rightarrow> 'a option" where
  "pending [] = None"
| "pending [Begin a] = Some a"
| "pending [End a] = None"
| "pending (x # y # rest) = pending rest"

text \<open>The value of the last call of a callable in a trace.\<close>

definition latest :: "call list \<Rightarrow> callback \<Rightarrow> pyval option" where
  "latest cs f = map_option arg (find (\<lambda>c. target c = f) (rev cs))"

section \<open>The sequential driver \<^verbatim>\<open>seq\<close>\<close>

text \<open>
  The coroutine of \<^verbatim>\<open>seq\<close> is suspended either in \<^verbatim>\<open>__anext__\<close> of its stream or, with
  \<open>sawait = Some v\<close>, in \<^verbatim>\<open>await awaitable\<close> for the handler's result on \<open>v\<close>.
\<close>

record sequencer =
  sobs :: observer
  sawait :: "pyval option"
  sdone :: bool
  slog :: "pyval mark list"

definition seq :: "string \<Rightarrow> sequencer" where
  "seq name = \<lparr>sobs = observe name, sawait = None, sdone = False, slog = []\<rparr>"

text \<open>
  One turn of \<^verbatim>\<open>async for value in observe(...)\<close>: the next value, the call
  \<^verbatim>\<open>function(value)\<close>, and \<^verbatim>\<open>await awaitable\<close> when the result is awaitable. An exception
  of the handler leaves the coroutine. Nothing in the coroutine closes its stream: the
  generator stays suspended at its \<^verbatim>\<open>yield\<close>, abandoned, with its callback registered.
\<close>

definition seq_step :: "(pyval \<Rightarrow> hresult) \<Rightarrow> sequencer \<Rightarrow> world \<Rightarrow> sequencer \<times> world" where
  "seq_step function d w =
     (if sdone d \<or> sawait d \<noteq> None then (d, w)
      else case observe_next (sobs d) w of
        (Inl e, ob, w1) \<Rightarrow> (d\<lparr>sobs := ob, sdone := True\<rparr>, w1)
      | (Inr None, ob, w1) \<Rightarrow> (d\<lparr>sobs := ob\<rparr>, w1)
      | (Inr (Some v), ob, w1) \<Rightarrow>
          (case function v of
             NotAwaitable \<Rightarrow> (d\<lparr>sobs := ob, slog := slog d @ [Begin v, End v]\<rparr>, w1)
           | Coroutine \<Rightarrow> (d\<lparr>sobs := ob, sawait := Some v, slog := slog d @ [Begin v]\<rparr>, w1)
           | OtherAwaitable \<Rightarrow>
               (d\<lparr>sobs := ob, sawait := Some v, slog := slog d @ [Begin v]\<rparr>, w1)
           | HRaise \<Rightarrow>
               (d\<lparr>sobs := ob, sdone := True, slog := slog d @ [Begin v, End v]\<rparr>, w1)))"

text \<open>
  The awaited handler ends: it returns (\<open>ok\<close>) or it raises, which ends the driver and
  abandons the stream at its \<^verbatim>\<open>yield\<close>.
\<close>

definition seq_handler_ends :: "bool \<Rightarrow> sequencer \<Rightarrow> world \<Rightarrow> sequencer \<times> world" where
  "seq_handler_ends ok d w =
     (case sawait d of
        None \<Rightarrow> (d, w)
      | Some v \<Rightarrow>
          if ok then (d\<lparr>sawait := None, slog := slog d @ [End v]\<rparr>, w)
          else (d\<lparr>sawait := None, sdone := True, slog := slog d @ [End v]\<rparr>, w))"

text \<open>
  The driver is cancelled: \<^verbatim>\<open>CancelledError\<close> is raised where it is suspended. In the
  handler it awaits, that ends the handler and the driver, and the stream is abandoned.
  In the wait of its stream, the exception is raised inside the generator, at
  \<^verbatim>\<open>await signal.wait()\<close>, and the generator is left at once.
\<close>

definition seq_cancel :: "sequencer \<Rightarrow> world \<Rightarrow> sequencer \<times> world" where
  "seq_cancel d w =
     (if sdone d then (d, w)
      else case sawait d of
        Some v \<Rightarrow> seq_handler_ends False d w
      | None \<Rightarrow>
          (case observe_exit Cancel (sobs d) w of
             (r, ob2, w2) \<Rightarrow> (d\<lparr>sobs := ob2, sdone := True\<rparr>, w2)))"

text \<open>
  The stream of a driver that has ended is finalized: the event loop runs the
  \<^verbatim>\<open>aclose()\<close> that the interpreter asks for when it collects the abandoned generator.
  That is not part of the driver's end; it happens at some later turn of the loop.
\<close>

definition seq_finalize :: "sequencer \<Rightarrow> world \<Rightarrow> sequencer \<times> world" where
  "seq_finalize d w =
     (if sdone d
      then (case observe_exit Close (sobs d) w of (r, ob2, w2) \<Rightarrow> (d\<lparr>sobs := ob2\<rparr>, w2))
      else (d, w))"

text \<open>
  What can happen around a driver, one event at a time: the entity is written, deleted
  from or notified; the driver takes a turn; its handler ends; it is cancelled; its
  abandoned stream is finalized.
\<close>

datatype seq_event =
    SqSet string pyval
  | SqDel string
  | SqNotify "string list"
  | SqStep
  | SqHandlerEnds bool
  | SqCancel
  | SqFinalize

fun seq_apply :: "(pyval \<Rightarrow> hresult) \<Rightarrow> seq_event \<Rightarrow> sequencer \<times> world \<Rightarrow> sequencer \<times> world" where
  "seq_apply function (SqSet name v) (d, w) = (d, snd (setattr name v w))"
| "seq_apply function (SqDel name) (d, w) = (d, snd (delattr name w))"
| "seq_apply function (SqNotify names) (d, w) = (d, snd (notify names w))"
| "seq_apply function SqStep (d, w) = seq_step function d w"
| "seq_apply function (SqHandlerEnds ok) (d, w) = seq_handler_ends ok d w"
| "seq_apply function SqCancel (d, w) = seq_cancel d w"
| "seq_apply function SqFinalize (d, w) = seq_finalize d w"

fun seq_run :: "(pyval \<Rightarrow> hresult) \<Rightarrow> seq_event list \<Rightarrow> sequencer \<times> world \<Rightarrow> sequencer \<times> world" where
  "seq_run function [] s = s"
| "seq_run function (e # es) s = seq_run function es (seq_apply function e s)"

section \<open>The exclusive driver \<^verbatim>\<open>switch\<close>\<close>

text \<open>
  A task is pending from \<^verbatim>\<open>create_task\<close> on; \<^verbatim>\<open>task.cancel()\<close> asks a pending task to
  stop (\<open>Cancelling\<close>) and does nothing to a task that is done; the task is \<open>Done\<close> when
  the event loop has run it to its end.
\<close>

datatype tstate = Pending | Cancelling | Done

definition cancel :: "nat \<Rightarrow> (nat \<rightharpoonup> tstate) \<Rightarrow> (nat \<rightharpoonup> tstate)" where
  "cancel t ts = (case ts t of Some Pending \<Rightarrow> ts(t \<mapsto> Cancelling) | _ \<Rightarrow> ts)"

text \<open>
  \<open>wstack\<close> is the \<^verbatim>\<open>ExitStack\<close>: the tasks whose \<^verbatim>\<open>cancel\<close> was pushed, the last one
  first. \<open>wcalls\<close> lists the values the handler was called with, \<open>wlog\<close> the tasks
  created and cancelled; both are not in the source.
\<close>

record switcher =
  wobs :: observer
  wstack :: "nat list"
  wtasks :: "nat \<rightharpoonup> tstate"
  wnext :: nat
  wdone :: bool
  wcalls :: "pyval list"
  wlog :: "nat mark list"

definition switch :: "string \<Rightarrow> switcher" where
  "switch name =
     \<lparr>wobs = observe name, wstack = [], wtasks = Map.empty, wnext = 0, wdone = False,
      wcalls = [], wlog = []\<rparr>"

text \<open>
  \<^verbatim>\<open>stack.close()\<close>, and the exit of the \<^verbatim>\<open>with\<close> block: every pushed callback is called,
  the last pushed first, and the stack is empty afterwards.
\<close>

definition stack_close :: "switcher \<Rightarrow> switcher" where
  "stack_close d =
     d\<lparr>wstack := [], wtasks := fold cancel (wstack d) (wtasks d),
       wlog := wlog d @ map End (wstack d)\<rparr>"

text \<open>
  One turn of the loop of \<^verbatim>\<open>switch\<close>. Only an awaitable result reaches
  \<^verbatim>\<open>stack.close()\<close> and \<^verbatim>\<open>asyncio.create_task(awaitable)\<close>, which raises \<^verbatim>\<open>TypeError\<close>
  for an awaitable that is not a coroutine. An exception of the loop body leaves the
  \<^verbatim>\<open>with\<close> block, whose exit closes the stack (\<open>switch_abandon\<close>); nothing closes
  the stream, which stays suspended at its \<^verbatim>\<open>yield\<close> with its callback registered.
\<close>

definition switch_abandon :: "switcher \<Rightarrow> switcher" where
  "switch_abandon d = (stack_close d)\<lparr>wdone := True\<rparr>"

text \<open>
  An exception raised inside the generator (\<^verbatim>\<open>CancelledError\<close> at its \<^verbatim>\<open>await\<close>) leaves
  the generator first and the \<^verbatim>\<open>with\<close> block next.
\<close>

definition switch_leave :: "exit_path \<Rightarrow> switcher \<Rightarrow> world \<Rightarrow> switcher \<times> world" where
  "switch_leave p d w =
     (case observe_exit p (wobs d) w of
        (r, ob2, w2) \<Rightarrow> ((stack_close d)\<lparr>wobs := ob2, wdone := True\<rparr>, w2))"

definition switch_step :: "(pyval \<Rightarrow> hresult) \<Rightarrow> switcher \<Rightarrow> world \<Rightarrow> switcher \<times> world" where
  "switch_step function d w =
     (if wdone d then (d, w)
      else case observe_next (wobs d) w of
        (Inl e, ob, w1) \<Rightarrow> ((stack_close d)\<lparr>wobs := ob, wdone := True\<rparr>, w1)
      | (Inr None, ob, w1) \<Rightarrow> (d\<lparr>wobs := ob\<rparr>, w1)
      | (Inr (Some v), ob, w1) \<Rightarrow>
          (let d1 = d\<lparr>wobs := ob, wcalls := wcalls d @ [v]\<rparr> in
           case function v of
             NotAwaitable \<Rightarrow> (d1, w1)
           | Coroutine \<Rightarrow>
               (let d2 = stack_close d1; t = wnext d2
                in (d2\<lparr>wstack := [t], wtasks := (wtasks d2)(t \<mapsto> Pending), wnext := Suc t,
                       wlog := wlog d2 @ [Begin t]\<rparr>, w1))
           | OtherAwaitable \<Rightarrow> (switch_abandon (stack_close d1), w1)
           | HRaise \<Rightarrow> (switch_abandon d1, w1)))"

text \<open>The driver is cancelled while it waits for its stream.\<close>

definition switch_cancel :: "switcher \<Rightarrow> world \<Rightarrow> switcher \<times> world" where
  "switch_cancel d w = (if wdone d then (d, w) else switch_leave Cancel d w)"

text \<open>The abandoned stream of a driver that has ended is finalized, as for \<open>seq\<close>.\<close>

definition switch_finalize :: "switcher \<Rightarrow> world \<Rightarrow> switcher \<times> world" where
  "switch_finalize d w =
     (if wdone d
      then (case observe_exit Close (wobs d) w of (r, ob2, w2) \<Rightarrow> (d\<lparr>wobs := ob2\<rparr>, w2))
      else (d, w))"

text \<open>A task of the driver reaches its end, by itself or by taking the cancellation.\<close>

definition task_ends :: "nat \<Rightarrow> switcher \<Rightarrow> switcher" where
  "task_ends t d = (case wtasks d t of None \<Rightarrow> d | Some s \<Rightarrow> d\<lparr>wtasks := (wtasks d)(t \<mapsto> Done)\<rparr>)"

datatype switch_event =
    SwSet string pyval
  | SwDel string
  | SwNotify "string list"
  | SwStep
  | SwTaskEnds nat
  | SwCancel
  | SwFinalize

fun switch_apply ::
  "(pyval \<Rightarrow> hresult) \<Rightarrow> switch_event \<Rightarrow> switcher \<times> world \<Rightarrow> switcher \<times> world" where
  "switch_apply function (SwSet name v) (d, w) = (d, snd (setattr name v w))"
| "switch_apply function (SwDel name) (d, w) = (d, snd (delattr name w))"
| "switch_apply function (SwNotify names) (d, w) = (d, snd (notify names w))"
| "switch_apply function SwStep (d, w) = switch_step function d w"
| "switch_apply function (SwTaskEnds t) (d, w) = (task_ends t d, w)"
| "switch_apply function SwCancel (d, w) = switch_cancel d w"
| "switch_apply function SwFinalize (d, w) = switch_finalize d w"

fun switch_run ::
  "(pyval \<Rightarrow> hresult) \<Rightarrow> switch_event list \<Rightarrow> switcher \<times> world \<Rightarrow> switcher \<times> world" where
  "switch_run function [] s = s"
| "switch_run function (e # es) s = switch_run function es (switch_apply function e s)"

text \<open>The tasks of a driver that are pending: created, not done, not asked to stop.\<close>

definition alive :: "switcher \<Rightarrow> nat set" where
  "alive d = {t. wtasks d t = Some Pending}"

text \<open>
  A world is coherent when every bridge whose signal is set holds in its slot the value
  of the last call of its callback.
\<close>

definition coherent :: "world \<Rightarrow> bool" where
  "coherent w = (\<forall>i. signal (bridges w i) \<longrightarrow> latest (trace w) (BridgeSend i) = Some (slot (bridges w i)))"

text \<open>
  What holds of a sequential driver at every moment: its log alternates, and the
  invocation the log has open is the one the coroutine awaits.
\<close>

definition seq_inv :: "sequencer \<Rightarrow> bool" where
  "seq_inv d = (alternates (slog d) \<and> pending (slog d) = sawait d \<and> (sdone d \<longrightarrow> sawait d = None))"

text \<open>
  What holds of an exclusive driver at every moment: its log alternates; the stack holds
  at most one task, the one the log has open; a pending task is on the stack; task
  identities below \<open>wnext\<close> only are in use; a finished driver has an empty stack.
\<close>

definition switch_inv :: "switcher \<Rightarrow> bool" where
  "switch_inv d =
     (alternates (wlog d)
      \<and> wstack d = (case pending (wlog d) of None \<Rightarrow> [] | Some t \<Rightarrow> [t])
      \<and> (\<forall>t. wtasks d t = Some Pending \<longrightarrow> wstack d = [t])
      \<and> (\<forall>t. wtasks d t \<noteq> None \<longrightarrow> t < wnext d)
      \<and> (wdone d \<longrightarrow> wstack d = []))"

text \<open>A handler that returns a coroutine for the string \<open>A\<close> and nothing awaitable otherwise.\<close>

definition mixed_handler :: "pyval \<Rightarrow> hresult" where
  "mixed_handler v = (if v = PStr ''A'' then Coroutine else NotAwaitable)"

section \<open>Sample worlds\<close>

text \<open>
  An entity with the attribute \<open>x\<close> set and two subscribers of \<open>x\<close>, a client
  callable and the callback of bridge 0; \<open>y\<close> has a subscriber and no value.
\<close>

definition sample_world :: world where
  "sample_world =
     \<lparr>attrs = [''x'' \<mapsto> PInt 0],
      registry = Some [''x'' \<mapsto> [Spy 0, BridgeSend 0], ''y'' \<mapsto> [Spy 1]],
      bridges = (\<lambda>i. state_init), fresh = 1, trace = []\<rparr>"

text \<open>The same entity with a subscriber of \<open>x\<close> that raises, between two that return.\<close>

definition faulty_world :: world where
  "faulty_world =
     \<lparr>attrs = [''x'' \<mapsto> PInt 0],
      registry = Some [''x'' \<mapsto> [Spy 0, Faulty 1, Spy 2]],
      bridges = (\<lambda>i. state_init), fresh = 0, trace = []\<rparr>"

text \<open>The observer of \<open>x\<close> that owns bridge 0, suspended on its wait.\<close>

definition sample_observer :: observer where
  "sample_observer = \<lparr>oname = ''x'', obridge = 0, ophase = Waiting\<rparr>"




text \<open>
  An exclusive driver on a new entity: it starts, \<open>mode\<close> is set to \<open>A\<close>, it takes a
  turn, \<open>mode\<close> is set to \<open>B\<close>, it takes a turn.
\<close>

definition mixed_run :: "switcher \<times> world" where
  "mixed_run =
     switch_run mixed_handler
       [SwStep, SwSet ''mode'' (PStr ''A''), SwStep, SwSet ''mode'' (PStr ''B''), SwStep]
       (switch ''mode'', init uninitialised)"

text \<open>The same driver after \<open>mode\<close> was set to \<open>A\<close> twice, before its next turn.\<close>

definition restart_run :: "switcher \<times> world" where
  "restart_run =
     switch_run mixed_handler
       [SwStep, SwSet ''mode'' (PStr ''A''), SwStep, SwSet ''mode'' (PStr ''A'')]
       (switch ''mode'', init uninitialised)"

text \<open>An exclusive driver of \<open>x\<close> on bridge 0 whose task 0 is pending.\<close>

definition busy_switcher :: switcher where
  "busy_switcher =
     \<lparr>wobs = sample_observer, wstack = [0], wtasks = [0 \<mapsto> Pending], wnext = 1,
      wdone = False, wcalls = [PStr ''A''], wlog = [Begin 0]\<rparr>"

text \<open>
  A handler whose result is always a coroutine, and a sequential driver of \<open>x\<close> on a
  new entity: it starts, \<open>x\<close> is set to \<open>A\<close>, it takes a turn and awaits the handler;
  \<open>x\<close> is set to 1 and then to 2 and the driver is offered a turn while the handler
  runs (\<open>busy_run\<close>); then the handler returns (\<open>slow_run\<close>).
\<close>

definition slow_handler :: "pyval \<Rightarrow> hresult" where
  "slow_handler v = Coroutine"

definition busy_run :: "sequencer \<times> world" where
  "busy_run =
     seq_run slow_handler
       [SqStep, SqSet ''x'' (PStr ''A''), SqStep, SqSet ''x'' (PInt 1), SqSet ''x'' (PInt 2),
        SqStep]
       (seq ''x'', init uninitialised)"

definition slow_run :: "sequencer \<times> world" where
  "slow_run =
     seq_run slow_handler
       [SqStep, SqSet ''x'' (PStr ''A''), SqStep, SqSet ''x'' (PInt 1), SqSet ''x'' (PInt 2),
        SqStep, SqHandlerEnds True]
       (seq ''x'', init uninitialised)"

section \<open>The fan-out\<close>

lemma invoke_frame:
  "attrs (snd (invoke f v w)) = attrs w"
  "registry (snd (invoke f v w)) = registry w"
  "fresh (snd (invoke f v w)) = fresh w"
  "trace (snd (invoke f v w)) = trace w @ [Call f v (attrs w)]"
  by (cases f; simp)+

lemma invoke_ok: "(fst (invoke f v w) = Inr ()) = (\<not> raises f)"
  by (cases f; simp)

lemma dispatch_frame:
  "attrs (snd (dispatch fs v w)) = attrs w \<and> registry (snd (dispatch fs v w)) = registry w
   \<and> fresh (snd (dispatch fs v w)) = fresh w"
proof (induction fs arbitrary: w)
  case Nil show ?case by simp
next
  case (Cons f fs)
  obtain r w' where iv: "invoke f v w = (r, w')" by (cases "invoke f v w")
  have fr: "attrs w' = attrs w" "registry w' = registry w" "fresh w' = fresh w"
    using invoke_frame [of f v w] iv by simp_all
  show ?case using Cons.IH [of w'] iv fr by (cases r) simp_all
qed

lemma dispatch_trace:
  "trace (snd (dispatch fs v w)) = trace w @ map (\<lambda>f. Call f v (attrs w)) (reached fs)"
proof (induction fs arbitrary: w)
  case Nil show ?case by simp
next
  case (Cons f fs)
  obtain r w' where iv: "invoke f v w = (r, w')" by (cases "invoke f v w")
  have fr: "attrs w' = attrs w" "trace w' = trace w @ [Call f v (attrs w)]"
    using invoke_frame [of f v w] iv by simp_all
  have res: "(r = Inr ()) = (\<not> raises f)" using invoke_ok [of f v w] iv by simp
  show ?case
  proof (cases r)
    case (Inl e)
    then have "raises f" using res by auto
    then show ?thesis using iv Inl fr by simp
  next
    case (Inr u)
    then have "\<not> raises f" using res by auto
    then show ?thesis using iv Inr fr Cons.IH [of w'] by simp
  qed
qed

lemma dispatch_ok: "(fst (dispatch fs v w) = Inr ()) = (\<forall>f \<in> set fs. \<not> raises f)"
proof (induction fs arbitrary: w)
  case Nil show ?case by simp
next
  case (Cons f fs)
  obtain r w' where iv: "invoke f v w = (r, w')" by (cases "invoke f v w")
  have res: "(r = Inr ()) = (\<not> raises f)" using invoke_ok [of f v w] iv by simp
  show ?case
  proof (cases r)
    case (Inl e)
    then have "raises f" using res by auto
    then show ?thesis using iv Inl by simp
  next
    case (Inr u)
    then have "\<not> raises f" using res by auto
    then show ?thesis using iv Inr Cons.IH [of w'] by simp
  qed
qed

lemma reached_all: "\<forall>f \<in> set fs. \<not> raises f \<Longrightarrow> reached fs = fs"
  by (induction fs) auto

lemma fan_out_dispatch: "fan_out name v w = dispatch (subscribers w name) v w"
  by (simp add: fan_out_def subscribers_def split: option.splits)

lemma fan_out_frame:
  "attrs (snd (fan_out name v w)) = attrs w"
  "registry (snd (fan_out name v w)) = registry w"
  "fresh (snd (fan_out name v w)) = fresh w"
  by (simp_all add: fan_out_dispatch dispatch_frame)

lemma fan_out_new_calls:
  "new_calls w (snd (fan_out name v w)) =
     map (\<lambda>f. Call f v (attrs w)) (reached (subscribers w name))"
  by (simp add: fan_out_dispatch dispatch_trace new_calls_def)

lemma subscribers_attrs_update [simp]: "subscribers (w\<lparr>attrs := a\<rparr>) name = subscribers w name"
  by (simp add: subscribers_def)

lemma new_calls_attrs_update [simp]: "new_calls (w\<lparr>attrs := a\<rparr>) w' = new_calls w w'"
  by (simp add: new_calls_def)

lemma setattr_new_calls:
  "new_calls w (snd (setattr name v w)) =
     map (\<lambda>f. Call f v ((attrs w)(name \<mapsto> v))) (reached (subscribers w name))"
  using fan_out_new_calls [of "w\<lparr>attrs := (attrs w)(name \<mapsto> v)\<rparr>" name v]
  by (simp add: setattr_def)

lemma setattr_attrs: "attrs (snd (setattr name v w)) = (attrs w)(name \<mapsto> v)"
  by (simp add: setattr_def fan_out_frame)

lemma delattr_new_calls:
  "attrs w name = Some old \<Longrightarrow> new_calls w (snd (delattr name w)) =
     map (\<lambda>f. Call f DELETED ((attrs w)(name := None))) (reached (subscribers w name))"
  using fan_out_new_calls [of "w\<lparr>attrs := (attrs w)(name := None)\<rparr>" name DELETED]
  by (simp add: delattr_def)

lemma delattr_attrs:
  "attrs w name = Some old \<Longrightarrow> attrs (snd (delattr name w)) = (attrs w)(name := None)"
  by (simp add: delattr_def fan_out_frame)

lemma sample_subscribers: "subscribers sample_world ''x'' = [Spy 0, BridgeSend 0]"
  by (simp add: sample_world_def subscribers_def)

lemma sample_attrs: "attrs sample_world = [''x'' \<mapsto> PInt 0]"
  by (simp add: sample_world_def)

lemma sample_subscribers_y: "subscribers sample_world ''y'' = [Spy 1]"
  by (simp add: sample_world_def subscribers_def)

lemma faulty_subscribers: "subscribers faulty_world ''x'' = [Spy 0, Faulty 1, Spy 2]"
  by (simp add: faulty_world_def subscribers_def)

lemma faulty_attrs: "attrs faulty_world = [''x'' \<mapsto> PInt 0]"
  by (simp add: faulty_world_def)

section \<open>Store first, dispatch second\<close>

text \<open>
  C9. \<open>setattr name v\<close> stores \<open>v\<close> before it calls any subscriber: the attribute is
  \<open>v\<close> afterwards, and every call of the fan-out is made with the argument \<open>v\<close> while
  the entity already holds \<open>v\<close> under \<open>name\<close>. Likewise \<open>delattr name\<close>, for an
  attribute that is set, removes it before it calls the subscribers with \<open>DELETED\<close>:
  every call of that fan-out sees the attribute absent.
\<close>

theorem stored_before_dispatch:
  "attrs (snd (setattr name v w)) name = Some v
   \<and> (\<forall>c \<in> set (new_calls w (snd (setattr name v w))). arg c = v \<and> seen c name = Some v)
   \<and> (attrs w name \<noteq> None \<longrightarrow>
        attrs (snd (delattr name w)) name = None
        \<and> (\<forall>c \<in> set (new_calls w (snd (delattr name w))).
              arg c = DELETED \<and> seen c name = None))"
  by (auto simp: setattr_new_calls setattr_attrs delattr_new_calls delattr_attrs)

theorem stored_before_dispatch_witness:
  "map target (new_calls sample_world (snd (setattr ''x'' (PInt 5) sample_world)))
     = [Spy 0, BridgeSend 0]
   \<and> map (\<lambda>c. seen c ''x'') (new_calls sample_world (snd (setattr ''x'' (PInt 5) sample_world)))
     = [Some (PInt 5), Some (PInt 5)]
   \<and> attrs sample_world ''x'' = Some (PInt 0)
   \<and> map target (new_calls sample_world (snd (delattr ''x'' sample_world)))
     = [Spy 0, BridgeSend 0]
   \<and> map (\<lambda>c. seen c ''x'') (new_calls sample_world (snd (delattr ''x'' sample_world)))
     = [None, None]
   \<and> map arg (new_calls sample_world (snd (delattr ''x'' sample_world)))
     = [DELETED, DELETED]"
  using stored_before_dispatch [of "''x''" "PInt 5" sample_world]
        delattr_new_calls [of sample_world "''x''" "PInt 0"]
  by (simp add: setattr_new_calls sample_subscribers sample_attrs)

lemma notify_calls_frame:
  "attrs (snd (notify_calls fs v c w)) = attrs w \<and> registry (snd (notify_calls fs v c w)) = registry w
   \<and> fresh (snd (notify_calls fs v c w)) = fresh w"
proof (induction fs arbitrary: w c)
  case Nil show ?case by simp
next
  case (Cons f fs)
  obtain r w' where iv: "invoke f v w = (r, w')" by (cases "invoke f v w")
  have fr: "attrs w' = attrs w" "registry w' = registry w" "fresh w' = fresh w"
    using invoke_frame [of f v w] iv by simp_all
  show ?case using Cons.IH [of "c + 1" w'] iv fr by (cases r) simp_all
qed

lemma notify_calls_trace:
  "trace (snd (notify_calls fs v c w)) = trace w @ map (\<lambda>f. Call f v (attrs w)) (reached fs)"
proof (induction fs arbitrary: w c)
  case Nil show ?case by simp
next
  case (Cons f fs)
  obtain r w' where iv: "invoke f v w = (r, w')" by (cases "invoke f v w")
  have fr: "attrs w' = attrs w" "trace w' = trace w @ [Call f v (attrs w)]"
    using invoke_frame [of f v w] iv by simp_all
  have res: "(r = Inr ()) = (\<not> raises f)" using invoke_ok [of f v w] iv by simp
  show ?case
  proof (cases r)
    case (Inl e)
    then have "raises f" using res by auto
    then show ?thesis using iv Inl fr by simp
  next
    case (Inr u)
    then have "\<not> raises f" using res by auto
    then show ?thesis using iv Inr fr Cons.IH [of "c + 1" w'] by simp
  qed
qed

lemma notify_calls_count:
  "\<forall>f \<in> set fs. \<not> raises f \<Longrightarrow> fst (notify_calls fs v c w) = Inr (c + length fs)"
proof (induction fs arbitrary: w c)
  case Nil show ?case by simp
next
  case (Cons f fs)
  obtain r w' where iv: "invoke f v w = (r, w')" by (cases "invoke f v w")
  have "r = Inr ()" using invoke_ok [of f v w] iv Cons.prems by simp
  then show ?case using iv Cons.IH [of "c + 1" w'] Cons.prems by simp
qed

lemma invoke_faulty: "fst (invoke (Faulty k) v w) = Inl (CallbackError k)"
  by simp

lemma dispatch_fail:
  "\<forall>g \<in> set pre. \<not> raises g \<Longrightarrow> fst (dispatch (pre @ Faulty k # post) v w) = Inl (CallbackError k)"
proof (induction pre arbitrary: w)
  case Nil show ?case by simp
next
  case (Cons f fs)
  obtain r w' where iv: "invoke f v w = (r, w')" by (cases "invoke f v w")
  have "r = Inr ()" using invoke_ok [of f v w] iv Cons.prems by simp
  then show ?case using iv Cons.IH [of w'] Cons.prems by simp
qed

lemma notify_calls_fail:
  "\<forall>g \<in> set pre. \<not> raises g \<Longrightarrow>
     fst (notify_calls (pre @ Faulty k # post) v c w) = Inl (CallbackError k)"
proof (induction pre arbitrary: w c)
  case Nil show ?case by simp
next
  case (Cons f fs)
  obtain r w' where iv: "invoke f v w = (r, w')" by (cases "invoke f v w")
  have "r = Inr ()" using invoke_ok [of f v w] iv Cons.prems by simp
  then show ?case using iv Cons.IH [of "c + 1" w'] Cons.prems by simp
qed

lemma reached_fail:
  "\<forall>g \<in> set pre. \<not> raises g \<Longrightarrow> reached (pre @ Faulty k # post) = pre @ [Faulty k]"
  by (induction pre) auto

text \<open>One name of \<^verbatim>\<open>notify\<close>, in terms of the subscribers.\<close>

lemma notify_names_skip:
  "registry w \<noteq> None \<Longrightarrow> subscribers w name = [] \<Longrightarrow>
     notify_names (name # names) c w = notify_names names c w"
  by (auto simp: subscribers_def split: option.splits)

lemma notify_names_unset:
  "subscribers w name \<noteq> [] \<Longrightarrow> attrs w name = None \<Longrightarrow>
     notify_names (name # names) c w = (Inl AttributeError, w)"
  by (auto simp: subscribers_def split: option.splits)

lemma notify_names_call:
  "subscribers w name \<noteq> [] \<Longrightarrow> attrs w name = Some v \<Longrightarrow>
     notify_names (name # names) c w =
       (case notify_calls (subscribers w name) v c w of
          (Inl e, w') \<Rightarrow> (Inl e, w')
        | (Inr c', w') \<Rightarrow> notify_names names c' w')"
  by (auto simp: subscribers_def split: option.splits)

lemma subscribers_frame: "registry w' = registry w \<Longrightarrow> subscribers w' name = subscribers w name"
  by (simp add: subscribers_def)

lemma notify_names_good:
  assumes "\<forall>n \<in> set names. attrs w n \<noteq> None \<and> subscribers w n \<noteq> []"
      and "\<forall>n \<in> set names. \<forall>f \<in> set (subscribers w n). \<not> raises f"
  shows "fst (notify_names names c w) = Inr (c + sum_list (map (\<lambda>n. length (subscribers w n)) names))
     \<and> attrs (snd (notify_names names c w)) = attrs w
     \<and> registry (snd (notify_names names c w)) = registry w
     \<and> trace (snd (notify_names names c w)) =
         trace w @ concat (map (\<lambda>n. map (\<lambda>f. Call f (the (attrs w n)) (attrs w)) (subscribers w n)) names)"
  using assms
proof (induction names arbitrary: c w)
  case Nil show ?case by simp
next
  case (Cons n ns)
  obtain v where v: "attrs w n = Some v" using Cons.prems(1) by auto
  have ne: "subscribers w n \<noteq> []" using Cons.prems(1) by simp
  have good: "\<forall>f \<in> set (subscribers w n). \<not> raises f" using Cons.prems(2) by simp
  obtain r w' where nc: "notify_calls (subscribers w n) v c w = (r, w')"
    by (cases "notify_calls (subscribers w n) v c w")
  have r: "r = Inr (c + length (subscribers w n))"
    using notify_calls_count [OF good, of v c w] nc by simp
  have fr: "attrs w' = attrs w" "registry w' = registry w"
    using notify_calls_frame [of "subscribers w n" v c w] nc by simp_all
  have tr: "trace w' = trace w @ map (\<lambda>f. Call f v (attrs w)) (subscribers w n)"
    using notify_calls_trace [of "subscribers w n" v c w] nc reached_all [OF good] by simp
  have subs: "\<And>m. subscribers w' m = subscribers w m"
    using fr(2) by (rule subscribers_frame)
  have p1: "\<forall>m \<in> set ns. attrs w' m \<noteq> None \<and> subscribers w' m \<noteq> []"
    using Cons.prems(1) fr(1) subs by simp
  have p2: "\<forall>m \<in> set ns. \<forall>f \<in> set (subscribers w' m). \<not> raises f"
    using Cons.prems(2) subs by simp
  have step: "notify_names (n # ns) c w = notify_names ns (c + length (subscribers w n)) w'"
    using notify_names_call [OF ne v, of ns c] nc r by simp
  show ?case
    using Cons.IH [OF p1 p2, of "c + length (subscribers w n)"] step fr tr subs v
    by (simp add: add.assoc)
qed

section \<open>Forced notification\<close>

text \<open>
  C8. For a list of names each of which has a value and at least one subscriber, where
  the subscribers return, \<open>notify\<close> returns the sum over the listed names of their
  subscriber counts, leaves every attribute as it was, and calls, name after name, each
  subscriber of the name with the name's current value.
\<close>

theorem notify_replays:
  assumes "\<forall>n \<in> set names. attrs w n \<noteq> None \<and> subscribers w n \<noteq> []"
      and "\<forall>n \<in> set names. \<forall>f \<in> set (subscribers w n). \<not> raises f"
  shows "fst (notify names w) = Inr (sum_list (map (\<lambda>n. length (subscribers w n)) names))
     \<and> attrs (snd (notify names w)) = attrs w
     \<and> new_calls w (snd (notify names w)) =
         concat (map (\<lambda>n. map (\<lambda>f. Call f (the (attrs w n)) (attrs w)) (subscribers w n)) names)"
  using notify_names_good [OF assms, of 0] by (simp add: notify_def new_calls_def)

theorem notify_replays_witness:
  "attrs sample_world ''x'' = Some (PInt 0)
   \<and> subscribers sample_world ''x'' = [Spy 0, BridgeSend 0]
   \<and> fst (notify [''x'', ''x''] sample_world) = Inr 4
   \<and> attrs (snd (notify [''x'', ''x''] sample_world)) = attrs sample_world
   \<and> map target (new_calls sample_world (snd (notify [''x'', ''x''] sample_world)))
       = [Spy 0, BridgeSend 0, Spy 0, BridgeSend 0]
   \<and> map arg (new_calls sample_world (snd (notify [''x'', ''x''] sample_world)))
       = [PInt 0, PInt 0, PInt 0, PInt 0]"
  using notify_replays [of "[''x'', ''x'']" sample_world]
  by (simp add: sample_subscribers sample_attrs)

text \<open>
  C5, as amended. For a name without a value, \<open>notify\<close> raises \<^verbatim>\<open>AttributeError\<close>
  and calls no subscriber when the name has a subscriber; when it has none (on an
  initialised entity) the name is skipped: \<open>notify\<close> returns 0, calls nothing and does
  not fail.
\<close>

theorem notify_unset:
  assumes "attrs w name = None"
  shows "(subscribers w name \<noteq> [] \<longrightarrow> notify [name] w = (Inl AttributeError, w))
     \<and> (registry w \<noteq> None \<and> subscribers w name = [] \<longrightarrow> notify [name] w = (Inr 0, w))"
  using assms notify_names_unset [of w name "[]" 0] notify_names_skip [of w name "[]" 0]
  by (auto simp: notify_def)

theorem notify_unset_witness:
  "attrs sample_world ''y'' = None
   \<and> subscribers sample_world ''y'' = [Spy 1]
   \<and> notify [''y''] sample_world = (Inl AttributeError, sample_world)
   \<and> attrs sample_world ''z'' = None
   \<and> registry sample_world \<noteq> None
   \<and> subscribers sample_world ''z'' = []
   \<and> notify [''z''] sample_world = (Inr 0, sample_world)"
  using notify_unset [of sample_world "''y''"] notify_unset [of sample_world "''z''"]
  by (simp add: sample_subscribers_y sample_attrs) (simp add: sample_world_def subscribers_def)

text \<open>
  C5 as stated fails: on a new entity, \<open>never_set\<close> has no value and no subscriber,
  and \<open>notify\<close> returns the count 0 instead of raising.
\<close>

theorem notify_unset_counterexample:
  "attrs (init uninitialised) ''never_set'' = None
   \<and> notify [''never_set''] (init uninitialised) = (Inr 0, init uninitialised)"
  by (simp add: notify_def init_def uninitialised_def)

lemma notify_one_new_calls:
  "subscribers w name \<noteq> [] \<Longrightarrow> attrs w name = Some v \<Longrightarrow>
     new_calls w (snd (notify [name] w)) = map (\<lambda>f. Call f v (attrs w)) (reached (subscribers w name))
     \<and> fst (notify [name] w) = (case fst (notify_calls (subscribers w name) v 0 w) of Inl e \<Rightarrow> Inl e | Inr c \<Rightarrow> Inr c)"
  using notify_calls_trace [of "subscribers w name" v 0 w] notify_names_call [of w name v "[]" 0]
  by (cases "notify_calls (subscribers w name) v 0 w"; cases "fst (notify_calls (subscribers w name) v 0 w)")
     (auto simp: notify_def new_calls_def)

section \<open>A subscriber that raises\<close>

text \<open>
  C6, as amended. When the first subscriber of a name that raises is \<open>Faulty k\<close>, after
  the subscribers \<open>pre\<close> that return, then \<open>setattr\<close>, \<open>delattr\<close> and \<open>notify\<close> on
  that name raise its exception: the subscribers before it and itself have been called,
  the subscribers \<open>post\<close> after it are not called. The attribute is stored, or removed,
  all the same.
\<close>

theorem failure_ends_fan_out:
  assumes "subscribers w name = pre @ Faulty k # post"
      and "\<forall>g \<in> set pre. \<not> raises g"
  shows "fst (setattr name v w) = Inl (CallbackError k)
     \<and> map target (new_calls w (snd (setattr name v w))) = pre @ [Faulty k]
     \<and> attrs (snd (setattr name v w)) name = Some v
     \<and> (attrs w name \<noteq> None \<longrightarrow>
          fst (delattr name w) = Inl (CallbackError k)
          \<and> map target (new_calls w (snd (delattr name w))) = pre @ [Faulty k]
          \<and> attrs (snd (delattr name w)) name = None
          \<and> fst (notify [name] w) = Inl (CallbackError k)
          \<and> map target (new_calls w (snd (notify [name] w))) = pre @ [Faulty k])"
proof -
  have rf: "reached (subscribers w name) = pre @ [Faulty k]"
    using assms reached_fail by simp
  have s1: "fst (setattr name v w) = Inl (CallbackError k)"
    using dispatch_fail [OF assms(2)] assms(1) by (simp add: setattr_def fan_out_dispatch)
  have s2: "map target (new_calls w (snd (setattr name v w))) = pre @ [Faulty k]"
    by (simp add: setattr_new_calls rf comp_def)
  have s3: "attrs (snd (setattr name v w)) name = Some v"
    by (simp add: setattr_attrs)
  have d: "fst (delattr name w) = Inl (CallbackError k)
          \<and> map target (new_calls w (snd (delattr name w))) = pre @ [Faulty k]
          \<and> attrs (snd (delattr name w)) name = None
          \<and> fst (notify [name] w) = Inl (CallbackError k)
          \<and> map target (new_calls w (snd (notify [name] w))) = pre @ [Faulty k]"
    if "attrs w name = Some old" for old
  proof -
    have ne: "subscribers w name \<noteq> []" using assms(1) by simp
    have d1: "fst (delattr name w) = Inl (CallbackError k)"
      using dispatch_fail [OF assms(2)] assms(1) that by (simp add: delattr_def fan_out_dispatch)
    have d2: "map target (new_calls w (snd (delattr name w))) = pre @ [Faulty k]"
      using that by (simp add: delattr_new_calls rf comp_def)
    have d3: "attrs (snd (delattr name w)) name = None"
      using that by (simp add: delattr_attrs)
    have n: "fst (notify [name] w) = Inl (CallbackError k)
        \<and> map target (new_calls w (snd (notify [name] w))) = pre @ [Faulty k]"
      using notify_one_new_calls [OF ne that] notify_calls_fail [OF assms(2), of k post old 0 w]
            assms(1) rf by (simp add: comp_def)
    show ?thesis using d1 d2 d3 n by simp
  qed
  show ?thesis using s1 s2 s3 d by auto
qed

theorem failure_ends_fan_out_witness:
  "subscribers faulty_world ''x'' = [Spy 0] @ Faulty 1 # [Spy 2]
   \<and> \<not> raises (Spy 0)
   \<and> attrs faulty_world ''x'' = Some (PInt 0)
   \<and> fst (setattr ''x'' (PInt 7) faulty_world) = Inl (CallbackError 1)
   \<and> map target (new_calls faulty_world (snd (setattr ''x'' (PInt 7) faulty_world))) = [Spy 0, Faulty 1]
   \<and> fst (delattr ''x'' faulty_world) = Inl (CallbackError 1)
   \<and> fst (notify [''x''] faulty_world) = Inl (CallbackError 1)
   \<and> map target (new_calls faulty_world (snd (notify [''x''] faulty_world))) = [Spy 0, Faulty 1]"
  using failure_ends_fan_out [of faulty_world "''x''" "[Spy 0]" 1 "[Spy 2]" "PInt 7"]
  by (simp add: faulty_subscribers faulty_attrs)

text \<open>
  C6 as stated fails: with the subscribers \<open>Spy 0\<close>, \<open>Faulty 1\<close>, \<open>Spy 2\<close> of \<open>x\<close>,
  a \<open>setattr\<close> of \<open>x\<close> raises the exception of \<open>Faulty 1\<close> and \<open>Spy 2\<close> is never
  called.
\<close>

theorem isolation_counterexample:
  "subscribers faulty_world ''x'' = [Spy 0, Faulty 1, Spy 2]
   \<and> fst (setattr ''x'' (PInt 7) faulty_world) = Inl (CallbackError 1)
   \<and> map target (new_calls faulty_world (snd (setattr ''x'' (PInt 7) faulty_world))) = [Spy 0, Faulty 1]"
  by (simp add: faulty_world_def subscribers_def setattr_def fan_out_def new_calls_def)

section \<open>Deletion\<close>

text \<open>
  C7. For an attribute that is set, whose subscribers return, \<open>delattr\<close> returns,
  the attribute is gone, and the calls it made are one call of every subscriber of the
  name, each with \<open>DELETED\<close>. \<open>DELETED\<close> differs from \<^verbatim>\<open>None\<close>, from every integer
  (zero too), every string (the empty one too) and every boolean, and from the module's
  other object; a \<open>setattr\<close> of a value other than \<open>DELETED\<close> never hands \<open>DELETED\<close> to
  a subscriber.
\<close>

theorem delattr_dispatches_deleted:
  assumes "attrs w name = Some old"
      and "\<forall>f \<in> set (subscribers w name). \<not> raises f"
  shows "fst (delattr name w) = Inr ()
     \<and> attrs (snd (delattr name w)) name = None
     \<and> new_calls w (snd (delattr name w)) =
         map (\<lambda>f. Call f DELETED ((attrs w)(name := None))) (subscribers w name)
     \<and> DELETED \<noteq> PNone \<and> DELETED \<noteq> PInt n \<and> DELETED \<noteq> PStr s \<and> DELETED \<noteq> PBool b
     \<and> DELETED \<noteq> SENTINEL
     \<and> (v \<noteq> DELETED \<longrightarrow> (\<forall>c \<in> set (new_calls w (snd (setattr name v w))). arg c \<noteq> DELETED))"
proof -
  have r: "fst (delattr name w) = Inr ()"
    using assms dispatch_ok [of "subscribers w name" DELETED "w\<lparr>attrs := (attrs w)(name := None)\<rparr>"]
    by (simp add: delattr_def fan_out_dispatch)
  show ?thesis
    using r assms(1) reached_all [OF assms(2)]
    by (auto simp: delattr_new_calls delattr_attrs setattr_new_calls DELETED_def SENTINEL_def)
qed

theorem delattr_dispatches_deleted_witness:
  "attrs sample_world ''x'' = Some (PInt 0)
   \<and> \<not> raises (Spy 0) \<and> \<not> raises (BridgeSend 0)
   \<and> fst (delattr ''x'' sample_world) = Inr ()
   \<and> attrs (snd (delattr ''x'' sample_world)) ''x'' = None
   \<and> map target (new_calls sample_world (snd (delattr ''x'' sample_world))) = [Spy 0, BridgeSend 0]
   \<and> map arg (new_calls sample_world (snd (delattr ''x'' sample_world))) = [DELETED, DELETED]
   \<and> DELETED \<noteq> PInt 0 \<and> DELETED \<noteq> PStr '''' \<and> DELETED \<noteq> PNone \<and> DELETED \<noteq> PBool False
   \<and> map arg (new_calls sample_world (snd (setattr ''x'' PNone sample_world))) = [PNone, PNone]"
  using delattr_dispatches_deleted [of sample_world "''x''" "PInt 0" 0 "''''" False PNone]
  by (simp add: sample_subscribers sample_attrs setattr_new_calls)

section \<open>What a dispatch does to a bridge\<close>













lemma observe_wait_clear:
  "\<not> signal (bridges w (obridge ob)) \<Longrightarrow>
     observe_wait ob w = (Inr None, ob\<lparr>ophase := Waiting\<rparr>, w)"
  by (simp add: observe_wait_def Let_def)


section \<open>Coalescing\<close>



section \<open>Cleanup\<close>








section \<open>Logs that alternate\<close>

lemma alternates_begin:
  "alternates l \<Longrightarrow> pending l = None \<Longrightarrow>
     alternates (l @ [Begin a]) \<and> pending (l @ [Begin a]) = Some a"
  by (induction l rule: alternates.induct) auto

lemma alternates_end:
  "alternates l \<Longrightarrow> pending l = Some a \<Longrightarrow>
     alternates (l @ [End a]) \<and> pending (l @ [End a]) = None"
  by (induction l rule: alternates.induct) auto

lemma alternates_begin_end:
  "alternates l \<Longrightarrow> pending l = None \<Longrightarrow>
     alternates (l @ [Begin a, End a]) \<and> pending (l @ [Begin a, End a]) = None"
  by (induction l rule: alternates.induct) auto

section \<open>The exclusive driver keeps its invariant\<close>

lemma cancel_other: "t' \<noteq> t \<Longrightarrow> cancel t ts t' = ts t'"
  by (simp add: cancel_def split: option.splits tstate.splits)

lemma cancel_not_pending: "cancel t ts t \<noteq> Some Pending"
  by (simp add: cancel_def split: option.splits tstate.splits)

lemma cancel_dom: "(cancel t ts t' = None) = (ts t' = None)"
  by (simp add: cancel_def split: option.splits tstate.splits)

lemma cancel_pending: "ts t = Some Pending \<Longrightarrow> cancel t ts t = Some Cancelling"
  by (simp add: cancel_def)

lemma switch_inv_pending: "switch_inv d \<Longrightarrow> wtasks d t = Some Pending \<Longrightarrow> wstack d = [t]"
  unfolding switch_inv_def by blast

lemma switch_inv_stack:
  "switch_inv d \<Longrightarrow> wstack d = (case pending (wlog d) of None \<Rightarrow> [] | Some t \<Rightarrow> [t])"
  unfolding switch_inv_def by blast

lemma switch_inv_short: "switch_inv d \<Longrightarrow> wstack d = [] \<or> (\<exists>u. wstack d = [u])"
  using switch_inv_stack [of d] by (cases "pending (wlog d)") auto

lemma switch_inv_bound: "switch_inv d \<Longrightarrow> wtasks d t \<noteq> None \<Longrightarrow> t < wnext d"
  unfolding switch_inv_def by blast

lemma switch_inv_alternates: "switch_inv d \<Longrightarrow> alternates (wlog d)"
  unfolding switch_inv_def by blast

lemma switch_inv_done: "switch_inv d \<Longrightarrow> wdone d \<Longrightarrow> wstack d = []"
  unfolding switch_inv_def by blast

lemma stack_close_closed:
  assumes "switch_inv d"
  shows "switch_inv (stack_close d)" 
    and "wstack (stack_close d) = []" 
    and "pending (wlog (stack_close d)) = None"
    and "alive (stack_close d) = {}"
    and "wnext (stack_close d) = wnext d"
    and "\<forall>t \<in> alive d. wtasks (stack_close d) t = Some Cancelling"
    and "wlog (stack_close d) = wlog d @ map End (wstack d)"
proof -
  show l: "wlog (stack_close d) = wlog d @ map End (wstack d)" by (simp add: stack_close_def)
  show s: "wstack (stack_close d) = []" by (simp add: stack_close_def)
  show n: "wnext (stack_close d) = wnext d" by (simp add: stack_close_def)
  have alt: "alternates (wlog d)" using assms by (rule switch_inv_alternates)
  have al: "alternates (wlog (stack_close d)) \<and> pending (wlog (stack_close d)) = None"
  proof (cases "pending (wlog d)")
    case None
    then have "wstack d = []" using switch_inv_stack [OF assms] by simp
    then show ?thesis using alt None by (simp add: stack_close_def)
  next
    case (Some t)
    then have "wstack d = [t]" using switch_inv_stack [OF assms] by simp
    then show ?thesis using alternates_end [OF alt Some] by (simp add: stack_close_def)
  qed
  then show "pending (wlog (stack_close d)) = None" by simp
  have np: "wtasks (stack_close d) t \<noteq> Some Pending" for t
  proof (cases "wtasks d t = Some Pending")
    case True
    then have "wstack d = [t]" using assms switch_inv_pending by blast
    then show ?thesis using cancel_not_pending [of t "wtasks d"] by (simp add: stack_close_def)
  next
    case False
    have "wstack d = [] \<or> (\<exists>u. wstack d = [u])"
      using switch_inv_short [OF assms] .
    then show ?thesis
    proof
      assume "wstack d = []" then show ?thesis using False by (simp add: stack_close_def)
    next
      assume "\<exists>u. wstack d = [u]"
      then obtain u where u: "wstack d = [u]" by auto
      show ?thesis
      proof (cases "u = t")
        case True then show ?thesis using u cancel_not_pending [of t "wtasks d"]
          by (simp add: stack_close_def)
      next
        case False': False
        then show ?thesis using u False cancel_other [of t u "wtasks d"]
          by (simp add: stack_close_def)
      qed
    qed
  qed
  then show a: "alive (stack_close d) = {}" by (auto simp: alive_def)
  show "\<forall>t \<in> alive d. wtasks (stack_close d) t = Some Cancelling"
  proof
    fix t assume "t \<in> alive d"
    then have p: "wtasks d t = Some Pending" by (simp add: alive_def)
    then have "wstack d = [t]" using assms switch_inv_pending by blast
    then show "wtasks (stack_close d) t = Some Cancelling"
      using cancel_pending [of "wtasks d" t] p by (simp add: stack_close_def)
  qed
  have dom: "(wtasks (stack_close d) t = None) = (wtasks d t = None)" for t
  proof -
    have "wstack d = [] \<or> (\<exists>u. wstack d = [u])"
      using switch_inv_short [OF assms] .
    then show ?thesis by (auto simp: stack_close_def cancel_dom)
  qed
  have bound: "\<forall>t. wtasks d t \<noteq> None \<longrightarrow> t < wnext d"
    using switch_inv_bound [OF assms] by blast
  show "switch_inv (stack_close d)"
    unfolding switch_inv_def using al s n np dom bound by auto
qed

lemma switch_inv_obs [simp]: "switch_inv (d\<lparr>wobs := ob\<rparr>) = switch_inv d"
  by (simp add: switch_inv_def)

lemma switch_inv_calls [simp]: "switch_inv (d\<lparr>wcalls := c\<rparr>) = switch_inv d"
  by (simp add: switch_inv_def)

lemma alive_obs [simp]: "alive (d\<lparr>wobs := ob\<rparr>) = alive d"
  by (simp add: alive_def)

lemma alive_calls [simp]: "alive (d\<lparr>wcalls := c\<rparr>) = alive d"
  by (simp add: alive_def)

lemma alive_done [simp]: "alive (d\<lparr>wdone := b\<rparr>) = alive d"
  by (simp add: alive_def)

lemma switch_inv_obs_done [simp]:
  "switch_inv (d\<lparr>wobs := ob, wdone := b\<rparr>) = switch_inv (d\<lparr>wdone := b\<rparr>)"
  by (simp add: switch_inv_def)

lemma switch_inv_finish: "switch_inv d \<Longrightarrow> wstack d = [] \<Longrightarrow> switch_inv (d\<lparr>wdone := True\<rparr>)"
  by (simp add: switch_inv_def)

lemma switch_inv_alive_one: "switch_inv d \<Longrightarrow> t \<in> alive d \<Longrightarrow> t' \<in> alive d \<Longrightarrow> t = t'"
  using switch_inv_pending [of d t] switch_inv_pending [of d t'] by (simp add: alive_def)

lemma switch_inv_done_alive: "switch_inv d \<Longrightarrow> wdone d \<Longrightarrow> alive d = {}"
  using switch_inv_done [of d] switch_inv_pending [of d] by (auto simp: alive_def)

lemma switch_leave_inv:
  assumes "switch_inv d"
  shows "switch_inv (fst (switch_leave p d w))" and "wdone (fst (switch_leave p d w))"
    and "alive (fst (switch_leave p d w)) = {}"
proof -
  obtain r ob2 w2 where x: "observe_exit p (wobs d) w = (r, ob2, w2)"
    by (cases "observe_exit p (wobs d) w")
  have e: "fst (switch_leave p d w) = (stack_close d)\<lparr>wobs := ob2, wdone := True\<rparr>"
    using x by (simp add: switch_leave_def)
  have c: "switch_inv (stack_close d)" "wstack (stack_close d) = []" "alive (stack_close d) = {}"
    using stack_close_closed [OF assms] by simp_all
  have "switch_inv ((stack_close d)\<lparr>wdone := True\<rparr>)"
    using switch_inv_finish [OF c(1) c(2)] .
  then show "switch_inv (fst (switch_leave p d w))" using e by simp
  show "wdone (fst (switch_leave p d w))" using e by simp
  show "alive (fst (switch_leave p d w))= {}" using e c(3) by (simp add: alive_def)
qed

lemma switch_abandon_inv:
  assumes "switch_inv d"
  shows "switch_inv (switch_abandon d)" and "wdone (switch_abandon d)"
    and "alive (switch_abandon d) = {}"
proof -
  have c: "switch_inv (stack_close d)" "wstack (stack_close d) = []" "alive (stack_close d) = {}"
    using stack_close_closed [OF assms] by simp_all
  show "switch_inv (switch_abandon d)"
    using switch_inv_finish [OF c(1) c(2)] by (simp add: switch_abandon_def)
  show "wdone (switch_abandon d)" by (simp add: switch_abandon_def)
  show "alive (switch_abandon d) = {}" using c(3) by (simp add: switch_abandon_def)
qed

lemma switch_finalize_inv: "switch_inv d \<Longrightarrow> switch_inv (fst (switch_finalize d w))"
  by (cases "observe_exit Close (wobs d) w") (simp add: switch_finalize_def)

text \<open>A task is created on a closed stack.\<close>

lemma create_task_inv:
  assumes "switch_inv d" and "wstack d = []" and "\<not> wdone d"
  shows "switch_inv (d\<lparr>wstack := [wnext d], wtasks := (wtasks d)(wnext d \<mapsto> Pending),
           wnext := Suc (wnext d), wlog := wlog d @ [Begin (wnext d)]\<rparr>)"
proof -
  have p: "pending (wlog d) = None"
    using switch_inv_stack [OF assms(1)] assms(2) by (cases "pending (wlog d)") auto
  have a: "alternates (wlog d @ [Begin (wnext d)]) \<and> pending (wlog d @ [Begin (wnext d)]) = Some (wnext d)"
    using alternates_begin [OF switch_inv_alternates [OF assms(1)] p] .
  have np: "wtasks d t \<noteq> Some Pending" for t
    using switch_inv_pending [OF assms(1), of t] assms(2) by auto
  have b: "wtasks d t \<noteq> None \<Longrightarrow> t < wnext d" for t
    using switch_inv_bound [OF assms(1)] .
  show ?thesis
    unfolding switch_inv_def using a np b assms(3) by (auto simp: less_Suc_eq)
qed

lemma switch_step_inv:
  assumes "switch_inv d"
  shows "switch_inv (fst (switch_step h d w))"
proof (cases "wdone d")
  case True
  then show ?thesis using assms by (simp add: switch_step_def)
next
  case False
  obtain r ob w1 where n: "observe_next (wobs d) w = (r, ob, w1)"
    by (cases "observe_next (wobs d) w")
  show ?thesis
  proof (cases r)
    case (Inl e)
    have c: "switch_inv (stack_close d)" "wstack (stack_close d) = []"
      using stack_close_closed [OF assms] by simp_all
    have "switch_inv ((stack_close d)\<lparr>wdone := True\<rparr>)"
      using switch_inv_finish [OF c] .
    then have "switch_inv ((stack_close d)\<lparr>wobs := ob, wdone := True\<rparr>)"
      by simp
    then show ?thesis using False n Inl by (simp add: switch_step_def)
  next
    case (Inr o1)
    show ?thesis
    proof (cases o1)
      case None
      then show ?thesis using False n Inr assms by (simp add: switch_step_def)
    next
      case (Some v)
      let ?d1 = "d\<lparr>wobs := ob, wcalls := wcalls d @ [v]\<rparr>"
      have i1: "switch_inv ?d1" using assms by simp
      have nd: "\<not> wdone ?d1" using False by simp
      show ?thesis
      proof (cases "h v")
        case NotAwaitable
        then show ?thesis using False n Inr Some i1 by (simp add: switch_step_def)
      next
        case Coroutine
        have c: "switch_inv (stack_close ?d1)" "wstack (stack_close ?d1) = []"
          using stack_close_closed [OF i1] by simp_all
        have nd2: "\<not> wdone (stack_close ?d1)" using False by (simp add: stack_close_def)
        show ?thesis
          using False n Inr Some Coroutine create_task_inv [OF c nd2]
          by (simp add: switch_step_def Let_def)
      next
        case OtherAwaitable
        have c: "switch_inv (stack_close ?d1)"
          using stack_close_closed [OF i1] by simp_all
        show ?thesis
          using False n Inr Some OtherAwaitable switch_abandon_inv(1) [OF c]
          by (simp add: switch_step_def Let_def)
      next
        case HRaise
        show ?thesis
          using False n Inr Some HRaise switch_abandon_inv(1) [OF i1]
          by (simp add: switch_step_def Let_def)
      qed
    qed
  qed
qed

lemma task_ends_inv: "switch_inv d \<Longrightarrow> switch_inv (task_ends t d)"
  by (auto simp: task_ends_def switch_inv_def split: option.splits)

lemma switch_cancel_inv: "switch_inv d \<Longrightarrow> switch_inv (fst (switch_cancel d w))"
  using switch_leave_inv(1) [of d Cancel w] by (simp add: switch_cancel_def)

lemma switch_apply_inv: "switch_inv (fst s) \<Longrightarrow> switch_inv (fst (switch_apply h e s))"
  by (cases s; cases e)
     (simp_all add: switch_step_inv task_ends_inv switch_cancel_inv switch_finalize_inv)

lemma switch_run_inv: "switch_inv (fst s) \<Longrightarrow> switch_inv (fst (switch_run h evs s))"
  by (induction evs arbitrary: s) (simp_all add: switch_apply_inv)

lemma switch_inv_new: "switch_inv (switch name)"
  by (simp add: switch_inv_def switch_def)

lemma switch_step_value:
  assumes "\<not> wdone d" and "observe_next (wobs d) w = (Inr (Some v), ob, w1)"
  shows "h v = NotAwaitable \<Longrightarrow>
           switch_step h d w = (d\<lparr>wobs := ob, wcalls := wcalls d @ [v]\<rparr>, w1)"
    and "h v = Coroutine \<Longrightarrow>
           fst (switch_step h d w) =
             (stack_close (d\<lparr>wobs := ob, wcalls := wcalls d @ [v]\<rparr>))
               \<lparr>wstack := [wnext d], wtasks := (fold cancel (wstack d) (wtasks d))(wnext d \<mapsto> Pending),
                wnext := Suc (wnext d), wlog := wlog d @ map End (wstack d) @ [Begin (wnext d)]\<rparr>"
  using assms by (simp_all add: switch_step_def Let_def stack_close_def)

lemma switch_step_coroutine:
  assumes "switch_inv d" and "\<not> wdone d"
      and "observe_next (wobs d) w = (Inr (Some v), ob, w1)" and "h v = Coroutine"
  shows "alive (fst (switch_step h d w)) = {wnext d}"
    and "\<forall>t \<in> alive d. wtasks (fst (switch_step h d w)) t = Some Cancelling"
    and "wlog (fst (switch_step h d w)) = wlog d @ map End (wstack d) @ [Begin (wnext d)]"
proof -
  let ?d' = "fst (switch_step h d w)"
  have t: "wtasks ?d' = (wtasks (stack_close d))(wnext d \<mapsto> Pending)"
    using switch_step_value(2) [where d = d and w = w and v = v and ob = ob and h = h]
          assms(2,3,4) by (simp add: stack_close_def)
  have none: "alive (stack_close d) = {}" using stack_close_closed(4) [OF assms(1)] .
  show "alive ?d' = {wnext d}"
    using t none by (auto simp: alive_def)
  show "\<forall>t \<in> alive d. wtasks ?d' t = Some Cancelling"
  proof
    fix u assume u: "u \<in> alive d"
    then have "wtasks d u \<noteq> None" by (simp add: alive_def)
    then have "u < wnext d" using switch_inv_bound [OF assms(1)] by simp
    then show "wtasks ?d' u = Some Cancelling"
      using t stack_close_closed(6) [OF assms(1)] u by simp
  qed
  show "wlog ?d' = wlog d @ map End (wstack d) @ [Begin (wnext d)]"
    using switch_step_value(2) [where d = d and w = w and v = v and ob = ob and h = h]
          assms(2,3,4) by simp
qed

lemma switch_cancel_alive:
  assumes "switch_inv d" and "\<not> wdone d"
  shows "wdone (fst (switch_cancel d w))"
    and "\<forall>t \<in> alive d. wtasks (fst (switch_cancel d w)) t = Some Cancelling"
proof -
  obtain r ob2 w2 where x: "observe_exit Cancel (wobs d) w = (r, ob2, w2)"
    by (cases "observe_exit Cancel (wobs d) w")
  have e: "fst (switch_cancel d w) = (stack_close d)\<lparr>wobs := ob2, wdone := True\<rparr>"
    using x assms(2) by (simp add: switch_cancel_def switch_leave_def)
  show "wdone (fst (switch_cancel d w))" using e by simp
  show "\<forall>t \<in> alive d. wtasks (fst (switch_cancel d w)) t = Some Cancelling"
    using e stack_close_closed(6) [OF assms(1)] by simp
qed

section \<open>The exclusive driver\<close>

text \<open>
  C3, as amended. After any events, an exclusive driver has at most one pending task;
  in its log of tasks every task created is cancelled before the next one is created;
  a driver that has finished has no pending task. When a value arrives and the
  handler's result for it is a coroutine, every task pending before is asked to stop
  and a new task, then the only pending one, is created after that. When the driver is
  cancelled, its pending task is asked to stop. (A value whose handler result is not
  awaitable leaves the prior task alone: that is C10.)
\<close>

theorem exclusive_driver:
  assumes "switch_run h evs (switch name, w0) = (d, w)"
  shows "(\<forall>t t'. t \<in> alive d \<and> t' \<in> alive d \<longrightarrow> t = t')
     \<and> alternates (wlog d)
     \<and> (wdone d \<longrightarrow> alive d = {})
     \<and> (\<forall>v ob w1. \<not> wdone d \<and> observe_next (wobs d) w = (Inr (Some v), ob, w1)
            \<and> h v = Coroutine \<longrightarrow>
          alive (fst (switch_step h d w)) = {wnext d}
          \<and> (\<forall>t \<in> alive d. wtasks (fst (switch_step h d w)) t = Some Cancelling)
          \<and> wlog (fst (switch_step h d w)) = wlog d @ map End (wstack d) @ [Begin (wnext d)])
     \<and> (\<not> wdone d \<longrightarrow>
          wdone (fst (switch_cancel d w))
          \<and> (\<forall>t \<in> alive d. wtasks (fst (switch_cancel d w)) t = Some Cancelling))"
proof -
  have "switch_inv (fst (switch_run h evs (switch name, w0)))"
    using switch_run_inv [of "(switch name, w0)"] switch_inv_new by simp
  then have i: "switch_inv d" using assms by simp
  have one: "\<forall>t t'. t \<in> alive d \<and> t' \<in> alive d \<longrightarrow> t = t'"
    using switch_inv_alive_one [OF i] by blast
  have fin: "wdone d \<longrightarrow> alive d = {}" using switch_inv_done_alive [OF i] by blast
  have step: "\<forall>v ob w1. \<not> wdone d \<and> observe_next (wobs d) w = (Inr (Some v), ob, w1)
            \<and> h v = Coroutine \<longrightarrow>
          alive (fst (switch_step h d w)) = {wnext d}
          \<and> (\<forall>t \<in> alive d. wtasks (fst (switch_step h d w)) t = Some Cancelling)
          \<and> wlog (fst (switch_step h d w)) = wlog d @ map End (wstack d) @ [Begin (wnext d)]"
  proof (intro allI impI, elim conjE)
    fix v ob w1
    assume a: "\<not> wdone d" "observe_next (wobs d) w = (Inr (Some v), ob, w1)"
      "h v = Coroutine"
    show "alive (fst (switch_step h d w)) = {wnext d}
          \<and> (\<forall>t \<in> alive d. wtasks (fst (switch_step h d w)) t = Some Cancelling)
          \<and> wlog (fst (switch_step h d w)) = wlog d @ map End (wstack d) @ [Begin (wnext d)]"
      using switch_step_coroutine
        [where d = d and w = w and v = v and ob = ob and h = h, OF i a(1) a(2) a(3)]
      by simp
  qed
  have can: "\<not> wdone d \<longrightarrow>
          wdone (fst (switch_cancel d w))
          \<and> (\<forall>t \<in> alive d. wtasks (fst (switch_cancel d w)) t = Some Cancelling)"
    using switch_cancel_alive [OF i] by blast
  show ?thesis using one switch_inv_alternates [OF i] fin step can by (intro conjI)
qed

lemmas run_defs =
  switch_def observe_def init_def uninitialised_def
  switch_step_def switch_cancel_def switch_leave_def switch_abandon_def switch_finalize_def
  observe_next_def observe_start_def observe_wait_def observe_exit_def observe_finally_def
  add_subscriber_def setattr_def fan_out_def state_init_def mixed_handler_def stack_close_def
  cancel_def Let_def

theorem exclusive_driver_witness:
  "\<not> wdone (fst restart_run)
   \<and> fst (observe_next (wobs (fst restart_run)) (snd restart_run)) = Inr (Some (PStr ''A''))
   \<and> mixed_handler (PStr ''A'') = Coroutine
   \<and> wtasks (fst restart_run) 0 = Some Pending
   \<and> wnext (fst restart_run) = 1
   \<and> alive (fst (switch_step mixed_handler (fst restart_run) (snd restart_run))) = {1}
   \<and> wtasks (fst (switch_step mixed_handler (fst restart_run) (snd restart_run))) 0 = Some Cancelling
   \<and> wlog (fst (switch_step mixed_handler (fst restart_run) (snd restart_run)))
       = [Begin 0, End 0, Begin 1]
   \<and> wdone (fst (switch_cancel (fst restart_run) (snd restart_run)))
   \<and> wtasks (fst (switch_cancel (fst restart_run) (snd restart_run))) 0 = Some Cancelling"
proof -
  let ?d = "fst restart_run" and ?w = "snd restart_run"
  have run: "switch_run mixed_handler
       [SwStep, SwSet ''mode'' (PStr ''A''), SwStep, SwSet ''mode'' (PStr ''A'')]
       (switch ''mode'', init uninitialised) = (?d, ?w)"
    by (simp add: restart_run_def)
  have nd: "\<not> wdone ?d" by (simp add: restart_run_def run_defs)
  have nx: "fst (observe_next (wobs ?d) ?w) = Inr (Some (PStr ''A''))"
    by (simp add: restart_run_def run_defs)
  obtain ob w1 where o: "observe_next (wobs ?d) ?w = (Inr (Some (PStr ''A'')), ob, w1)"
    using nx by (cases "observe_next (wobs ?d) ?w") auto
  have h: "mixed_handler (PStr ''A'') = Coroutine" by (simp add: mixed_handler_def)
  have t0: "wtasks ?d 0 = Some Pending" by (simp add: restart_run_def run_defs)
  have n1: "wnext ?d = 1" by (simp add: restart_run_def run_defs)
  have s0: "wstack ?d = [0]" by (simp add: restart_run_def run_defs)
  have l0: "wlog ?d = [Begin 0]" by (simp add: restart_run_def run_defs)
  have a0: "0 \<in> alive ?d" using t0 by (simp add: alive_def)
  note th = exclusive_driver [OF run]
  have step: "alive (fst (switch_step mixed_handler ?d ?w)) = {wnext ?d}
      \<and> (\<forall>t \<in> alive ?d. wtasks (fst (switch_step mixed_handler ?d ?w)) t = Some Cancelling)
      \<and> wlog (fst (switch_step mixed_handler ?d ?w)) = wlog ?d @ map End (wstack ?d) @ [Begin (wnext ?d)]"
    using th nd o h by blast
  have can: "wdone (fst (switch_cancel ?d ?w))
      \<and> (\<forall>t \<in> alive ?d. wtasks (fst (switch_cancel ?d ?w)) t = Some Cancelling)"
    using th nd by blast
  show ?thesis using nd nx h t0 n1 step can a0 s0 l0 by simp
qed

text \<open>
  C3 as stated fails: the handler gives a coroutine for \<open>A\<close> and a result that is not
  awaitable for \<open>B\<close>. After \<open>A\<close> and then \<open>B\<close> have arrived, the handler has been
  called with both, and the task made for \<open>A\<close> is still pending: \<^verbatim>\<open>cancel\<close> was never
  called on it.
\<close>

theorem exclusive_driver_counterexample:
  "wcalls (fst mixed_run) = [PStr ''A'', PStr ''B'']
   \<and> mixed_handler (PStr ''B'') = NotAwaitable
   \<and> wtasks (fst mixed_run) 0 = Some Pending
   \<and> wlog (fst mixed_run) = [Begin 0]"
  by (simp add: mixed_run_def run_defs)

section \<open>A result that is not awaitable\<close>

text \<open>
  C10. When a value is delivered to an exclusive driver and the handler's result for
  it is not awaitable, the turn changes nothing but the stream and the list of handler
  calls: no task is cancelled, none is created, the stack and the pending tasks are
  as before. With a coroutine as the result the turn calls \<^verbatim>\<open>cancel\<close> for the tasks on
  the stack and creates a task; with another awaitable it calls \<^verbatim>\<open>cancel\<close> for them.
\<close>

theorem non_awaitable_leaves_tasks:
  assumes "\<not> wdone d" and "observe_next (wobs d) w = (Inr (Some v), ob, w1)"
  shows "(h v = NotAwaitable \<longrightarrow>
            switch_step h d w = (d\<lparr>wobs := ob, wcalls := wcalls d @ [v]\<rparr>, w1)
            \<and> wtasks (fst (switch_step h d w)) = wtasks d
            \<and> wstack (fst (switch_step h d w)) = wstack d
            \<and> wlog (fst (switch_step h d w)) = wlog d
            \<and> alive (fst (switch_step h d w)) = alive d)
     \<and> (h v = Coroutine \<longrightarrow>
            wlog (fst (switch_step h d w)) = wlog d @ map End (wstack d) @ [Begin (wnext d)])
     \<and> (h v = OtherAwaitable \<longrightarrow>
            wlog (fst (switch_step h d w)) = wlog d @ map End (wstack d))"
proof (intro conjI impI)
  assume n: "h v = NotAwaitable"
  show e: "switch_step h d w = (d\<lparr>wobs := ob, wcalls := wcalls d @ [v]\<rparr>, w1)"
    using assms n by (simp add: switch_step_def)
  show "wtasks (fst (switch_step h d w)) = wtasks d" using e by simp
  show "wstack (fst (switch_step h d w)) = wstack d" using e by simp
  show "wlog (fst (switch_step h d w)) = wlog d" using e by simp
  show "alive (fst (switch_step h d w)) = alive d" using e by (simp add: alive_def)
next
  assume "h v = Coroutine"
  then show "wlog (fst (switch_step h d w)) = wlog d @ map End (wstack d) @ [Begin (wnext d)]"
    using assms by (simp add: switch_step_def Let_def stack_close_def)
next
  assume "h v = OtherAwaitable"
  then show "wlog (fst (switch_step h d w)) = wlog d @ map End (wstack d)"
    using assms
    by (simp add: switch_step_def Let_def stack_close_def switch_abandon_def)
qed

theorem non_awaitable_leaves_tasks_witness:
  "\<not> wdone busy_switcher
   \<and> fst (observe_next (wobs busy_switcher) (snd (setattr ''x'' (PInt 5) sample_world)))
       = Inr (Some (PInt 5))
   \<and> mixed_handler (PInt 5) = NotAwaitable
   \<and> wtasks busy_switcher 0 = Some Pending
   \<and> wtasks (fst (switch_step mixed_handler busy_switcher (snd (setattr ''x'' (PInt 5) sample_world)))) 0
       = Some Pending
   \<and> wlog (fst (switch_step mixed_handler busy_switcher (snd (setattr ''x'' (PInt 5) sample_world))))
       = [Begin 0]
   \<and> wcalls (fst (switch_step mixed_handler busy_switcher (snd (setattr ''x'' (PInt 5) sample_world))))
       = [PStr ''A'', PInt 5]"
proof -
  let ?w = "snd (setattr ''x'' (PInt 5) sample_world)"
  have nd: "\<not> wdone busy_switcher" by (simp add: busy_switcher_def)
  have nx: "fst (observe_next (wobs busy_switcher) ?w) = Inr (Some (PInt 5))"
    by (simp add: busy_switcher_def sample_observer_def sample_world_def run_defs)
  obtain ob w1 where o: "observe_next (wobs busy_switcher) ?w = (Inr (Some (PInt 5)), ob, w1)"
    using nx by (cases "observe_next (wobs busy_switcher) ?w") auto
  have h: "mixed_handler (PInt 5) = NotAwaitable" by (simp add: mixed_handler_def)
  show ?thesis
    using non_awaitable_leaves_tasks [OF nd o, of mixed_handler] nd nx h
    by (simp add: busy_switcher_def)
qed

section \<open>Coherent worlds\<close>

lemma latest_snoc:
  "latest (cs @ [c]) f = (if target c = f then Some (arg c) else latest cs f)"
  by (simp add: latest_def)

lemma invoke_coherent: "coherent w \<Longrightarrow> coherent (snd (invoke f v w))"
  by (cases f) (auto simp: coherent_def latest_snoc)

lemma dispatch_coherent: "coherent w \<Longrightarrow> coherent (snd (dispatch fs v w))"
proof (induction fs arbitrary: w)
  case Nil then show ?case by simp
next
  case (Cons f fs)
  obtain r w' where iv: "invoke f v w = (r, w')" by (cases "invoke f v w")
  have c: "coherent w'" using invoke_coherent [OF Cons.prems, of f v] iv by simp
  show ?case using Cons.IH [OF c] iv c by (cases r) simp_all
qed

lemma notify_calls_coherent: "coherent w \<Longrightarrow> coherent (snd (notify_calls fs v c w))"
proof (induction fs arbitrary: w c)
  case Nil then show ?case by simp
next
  case (Cons f fs)
  obtain r w' where iv: "invoke f v w = (r, w')" by (cases "invoke f v w")
  have c': "coherent w'" using invoke_coherent [OF Cons.prems, of f v] iv by simp
  show ?case using Cons.IH [OF c', of "c + 1"] iv c' by (cases r) simp_all
qed

lemma coherent_attrs [simp]: "coherent (w\<lparr>attrs := a\<rparr>) = coherent w"
  by (simp add: coherent_def)

lemma coherent_registry [simp]: "coherent (w\<lparr>registry := r\<rparr>) = coherent w"
  by (simp add: coherent_def)

lemma setattr_coherent: "coherent w \<Longrightarrow> coherent (snd (setattr name v w))"
  by (simp add: setattr_def fan_out_dispatch dispatch_coherent)

lemma delattr_coherent: "coherent w \<Longrightarrow> coherent (snd (delattr name w))"
  by (simp add: delattr_def fan_out_dispatch dispatch_coherent split: option.splits)

lemma notify_names_coherent: "coherent w \<Longrightarrow> coherent (snd (notify_names names c w))"
proof (induction names arbitrary: c w)
  case Nil then show ?case by simp
next
  case (Cons n ns)
  show ?case
  proof (cases "registry w")
    case None then show ?thesis using Cons.prems by simp
  next
    case (Some r)
    show ?thesis
    proof (cases "subscribers w n = []")
      case True
      then have "notify_names (n # ns) c w = notify_names ns c w"
        using notify_names_skip [of w n ns c] Some by simp
      then show ?thesis using Cons by simp
    next
      case False
      show ?thesis
      proof (cases "attrs w n")
        case None
        then show ?thesis using notify_names_unset [OF False, of ns c] Cons.prems by simp
      next
        case (Some v)
        obtain r' w' where nc: "notify_calls (subscribers w n) v c w = (r', w')"
          by (cases "notify_calls (subscribers w n) v c w")
        have c': "coherent w'"
          using notify_calls_coherent [OF Cons.prems, of "subscribers w n" v c] nc by simp
        show ?thesis
          using notify_names_call [OF False Some, of ns c] nc c' Cons.IH [OF c']
          by (cases r') simp_all
      qed
    qed
  qed
qed

lemma notify_coherent: "coherent w \<Longrightarrow> coherent (snd (notify names w))"
  by (simp add: notify_def notify_names_coherent)

lemma observe_wait_coherent: "coherent w \<Longrightarrow> coherent (snd (snd (observe_wait ob w)))"
  by (auto simp: observe_wait_def coherent_def Let_def)

lemma observe_finally_coherent: "coherent w \<Longrightarrow> coherent (observe_finally ob w)"
  by (simp add: observe_finally_def split: option.splits)

lemma add_subscriber_coherent: "coherent w \<Longrightarrow> coherent (snd (add_subscriber name f w))"
  by (simp add: add_subscriber_def Let_def split: option.splits)

lemma add_subscriber_bridges: "bridges (snd (add_subscriber name f w)) = bridges w"
  by (simp add: add_subscriber_def Let_def split: option.splits)

lemma fresh_bridge_coherent:
  "coherent w \<Longrightarrow> coherent (w\<lparr>bridges := (bridges w)(i := state_init), fresh := n\<rparr>)"
  by (simp add: coherent_def state_init_def)

lemma observe_start_coherent: "coherent w \<Longrightarrow> coherent (snd (snd (observe_start ob w)))"
proof -
  assume c: "coherent w"
  let ?w1 = "w\<lparr>bridges := (bridges w)(fresh w := state_init), fresh := Suc (fresh w)\<rparr>"
  let ?ob1 = "ob\<lparr>obridge := fresh w\<rparr>"
  obtain r w2 where a: "add_subscriber (oname ?ob1) (BridgeSend (fresh w)) ?w1 = (r, w2)"
    by (cases "add_subscriber (oname ?ob1) (BridgeSend (fresh w)) ?w1")
  have c1: "coherent ?w1"
    using fresh_bridge_coherent [OF c, where i = "fresh w" and n = "Suc (fresh w)"] .
  have c2: "coherent w2"
    using add_subscriber_coherent [OF c1, where name = "oname ?ob1" and f = "BridgeSend (fresh w)"] a
    by simp
  show ?thesis
    using a c2 observe_wait_coherent [OF c2, of ?ob1] observe_finally_coherent [OF c2, of ?ob1]
    by (cases r) (simp_all add: observe_start_def Let_def)
qed

lemma observe_next_coherent: "coherent w \<Longrightarrow> coherent (snd (snd (observe_next ob w)))"
  by (cases "ophase ob")
     (simp_all add: observe_next_def observe_start_coherent observe_wait_coherent)

lemma observe_exit_coherent: "coherent w \<Longrightarrow> coherent (snd (snd (observe_exit p ob w)))"
  by (cases "ophase ob") (simp_all add: observe_exit_def observe_finally_coherent)

text \<open>A value comes out of the stream only from a set signal, and it is the slot's.\<close>

lemma observe_start_no_value: "fst (observe_start ob w) \<noteq> Inr (Some v)"
proof -
  let ?w1 = "w\<lparr>bridges := (bridges w)(fresh w := state_init), fresh := Suc (fresh w)\<rparr>"
  let ?ob1 = "ob\<lparr>obridge := fresh w\<rparr>"
  obtain r w2 where a: "add_subscriber (oname ?ob1) (BridgeSend (fresh w)) ?w1 = (r, w2)"
    by (cases "add_subscriber (oname ?ob1) (BridgeSend (fresh w)) ?w1")
  have "bridges w2 = bridges ?w1"
    using add_subscriber_bridges [of "oname ?ob1" "BridgeSend (fresh w)" ?w1] a by simp
  then have "\<not> signal (bridges w2 (fresh w))" by (simp add: state_init_def)
  then show ?thesis
    using a by (cases r) (simp_all add: observe_start_def Let_def observe_wait_def)
qed

lemma observe_next_value:
  assumes "observe_next ob w = (Inr (Some v), ob', w1)"
  shows "signal (bridges w (obridge ob)) \<and> v = slot (bridges w (obridge ob))"
proof (cases "ophase ob")
  case Created
  then show ?thesis using assms observe_start_no_value [of ob w v] by (simp add: observe_next_def)
next
  case Waiting
  then show ?thesis using assms
    by (auto simp: observe_next_def observe_wait_def Let_def split: if_splits)
next
  case Yielded
  then show ?thesis using assms
    by (auto simp: observe_next_def observe_wait_def Let_def split: if_splits)
next
  case Closed
  then show ?thesis using assms by (simp add: observe_next_def)
qed

section \<open>The sequential driver keeps its invariant\<close>

lemma seq_inv_obs [simp]: "seq_inv (d\<lparr>sobs := ob\<rparr>) = seq_inv d"
  by (simp add: seq_inv_def)

lemma seq_inv_new: "seq_inv (seq name)"
  by (simp add: seq_inv_def seq_def)

lemma seq_inv_idle:
  "seq_inv d \<Longrightarrow> sawait d = None \<Longrightarrow> alternates (slog d) \<and> pending (slog d) = None"
  by (simp add: seq_inv_def)

lemma seq_inv_begin:
  "seq_inv d \<Longrightarrow> sawait d = None \<Longrightarrow> \<not> sdone d \<Longrightarrow>
     seq_inv (d\<lparr>sobs := ob, sawait := Some v, slog := slog d @ [Begin v]\<rparr>)"
  using alternates_begin [of "slog d" v] by (simp add: seq_inv_def)

lemma seq_inv_begin_end:
  "seq_inv d \<Longrightarrow> sawait d = None \<Longrightarrow>
     seq_inv (d\<lparr>sobs := ob, sdone := b, slog := slog d @ [Begin v, End v]\<rparr>)"
  using alternates_begin_end [of "slog d" v] by (simp add: seq_inv_def)

lemma seq_inv_plain:
  "seq_inv d \<Longrightarrow> sawait d = None \<Longrightarrow>
     seq_inv (d\<lparr>sobs := ob, slog := slog d @ [Begin v, End v]\<rparr>)"
  using alternates_begin_end [of "slog d" v] by (simp add: seq_inv_def)

lemma seq_inv_end:
  "seq_inv d \<Longrightarrow> sawait d = Some v \<Longrightarrow>
     seq_inv (d\<lparr>sawait := None, slog := slog d @ [End v]\<rparr>)
     \<and> seq_inv (d\<lparr>sawait := None, sdone := True, slog := slog d @ [End v]\<rparr>)"
  using alternates_end [of "slog d" v] by (simp add: seq_inv_def)

lemma seq_inv_finish: "seq_inv d \<Longrightarrow> sawait d = None \<Longrightarrow> seq_inv (d\<lparr>sobs := ob, sdone := True\<rparr>)"
  by (simp add: seq_inv_def)

lemma seq_step_inv:
  assumes "seq_inv d"
  shows "seq_inv (fst (seq_step h d w))"
proof (cases "sdone d \<or> sawait d \<noteq> None")
  case True
  then show ?thesis using assms by (simp add: seq_step_def)
next
  case False
  then have idle: "sawait d = None" and nd: "\<not> sdone d" by simp_all
  obtain r ob w1 where n: "observe_next (sobs d) w = (r, ob, w1)"
    by (cases "observe_next (sobs d) w")
  show ?thesis
  proof (cases r)
    case (Inl e)
    then show ?thesis using False n seq_inv_finish [OF assms idle, of ob]
      by (simp add: seq_step_def)
  next
    case (Inr o1)
    show ?thesis
    proof (cases o1)
      case None
      then show ?thesis using False n Inr assms by (simp add: seq_step_def)
    next
      case (Some v)
      show ?thesis
      proof (cases "h v")
        case NotAwaitable
        then show ?thesis
          using False n Inr Some seq_inv_plain [OF assms idle, where ob = ob and v = v]
          by (simp add: seq_step_def)
      next
        case Coroutine
        then show ?thesis
          using False n Inr Some seq_inv_begin [OF assms idle nd, where ob = ob and v = v]
          by (simp add: seq_step_def)
      next
        case OtherAwaitable
        then show ?thesis
          using False n Inr Some seq_inv_begin [OF assms idle nd, where ob = ob and v = v]
          by (simp add: seq_step_def)
      next
        case HRaise
        show ?thesis
          using False n Inr Some HRaise
            seq_inv_begin_end [OF assms idle, where ob = ob and b = True and v = v]
          by (simp add: seq_step_def)
      qed
    qed
  qed
qed

lemma seq_handler_ends_inv:
  assumes "seq_inv d"
  shows "seq_inv (fst (seq_handler_ends ok d w))"
proof (cases "sawait d")
  case None
  then show ?thesis using assms by (simp add: seq_handler_ends_def)
next
  case (Some v)
  show ?thesis
    using Some seq_inv_end [OF assms Some]
    by (simp add: seq_handler_ends_def)
qed

lemma seq_cancel_inv:
  assumes "seq_inv d"
  shows "seq_inv (fst (seq_cancel d w))"
proof (cases "sdone d")
  case True
  then show ?thesis using assms by (simp add: seq_cancel_def)
next
  case False
  show ?thesis
  proof (cases "sawait d")
    case None
    obtain r2 ob2 w2 where x: "observe_exit Cancel (sobs d) w = (r2, ob2, w2)"
      by (cases "observe_exit Cancel (sobs d) w")
    show ?thesis using False None x seq_inv_finish [OF assms None, of ob2]
      by (simp add: seq_cancel_def)
  next
    case (Some v)
    then show ?thesis using False seq_handler_ends_inv [OF assms, of False w]
      by (simp add: seq_cancel_def)
  qed
qed

lemma seq_step_coherent: "coherent w \<Longrightarrow> coherent (snd (seq_step h d w))"
proof -
  assume c: "coherent w"
  obtain r ob w1 where n: "observe_next (sobs d) w = (r, ob, w1)"
    by (cases "observe_next (sobs d) w")
  have c1: "coherent w1" using observe_next_coherent [OF c, of "sobs d"] n by simp
  show ?thesis
    using c c1 n
    by (auto simp: seq_step_def split: sum.splits option.splits hresult.splits)
qed

lemma seq_handler_ends_coherent: "coherent w \<Longrightarrow> coherent (snd (seq_handler_ends ok d w))"
  by (auto simp: seq_handler_ends_def split: option.splits)

lemma seq_finalize_inv: "seq_inv d \<Longrightarrow> seq_inv (fst (seq_finalize d w))"
  by (cases "observe_exit Close (sobs d) w") (simp add: seq_finalize_def)

lemma seq_finalize_coherent: "coherent w \<Longrightarrow> coherent (snd (seq_finalize d w))"
  using observe_exit_coherent [of w Close "sobs d"]
  by (cases "observe_exit Close (sobs d) w") (simp add: seq_finalize_def)

lemma seq_cancel_coherent: "coherent w \<Longrightarrow> coherent (snd (seq_cancel d w))"
  using observe_exit_coherent [of w Cancel "sobs d"] seq_handler_ends_coherent [of w False d]
  by (cases "observe_exit Cancel (sobs d) w")
     (auto simp: seq_cancel_def split: option.splits)

lemma seq_apply_inv:
  "seq_inv (fst s) \<and> coherent (snd s) \<Longrightarrow>
     seq_inv (fst (seq_apply h e s)) \<and> coherent (snd (seq_apply h e s))"
  by (cases s; cases e)
     (simp_all add: seq_step_inv seq_handler_ends_inv seq_cancel_inv seq_finalize_inv
        seq_step_coherent seq_handler_ends_coherent seq_cancel_coherent seq_finalize_coherent
        setattr_coherent delattr_coherent notify_coherent)

lemma seq_run_inv:
  "seq_inv (fst s) \<and> coherent (snd s) \<Longrightarrow>
     seq_inv (fst (seq_run h evs s)) \<and> coherent (snd (seq_run h evs s))"
proof (induction evs arbitrary: s)
  case Nil then show ?case by simp
next
  case (Cons e es)
  show ?case using Cons.IH [OF seq_apply_inv [OF Cons.prems, of h e]] by simp
qed

lemma seq_step_begins:
  assumes "\<not> sdone d" and "sawait d = None"
      and "observe_next (sobs d) w = (Inr (Some v), ob, w1)"
  shows "\<exists>rest. slog (fst (seq_step h d w)) = slog d @ Begin v # rest"
  using assms
  by (cases "h v") (simp_all add: seq_step_def)

section \<open>The sequential driver\<close>

text \<open>
  C4. After any events around a sequential driver that started on a coherent entity,
  its log of handler invocations alternates: an invocation begins only when the one
  before it has ended, and the invocation that is open is the one the driver awaits.
  While it awaits a handler, a turn offered to the driver does nothing: values that
  arrive meanwhile only overwrite the slot. When the driver, free again, takes a value
  from its stream, that value is the one of the last call of its bridge's callback,
  whatever was dispatched before it, and the handler invocation begins with it.
\<close>

theorem sequential_driver:
  assumes "coherent w0" and "seq_run h evs (seq name, w0) = (d, w)"
  shows "alternates (slog d)
     \<and> pending (slog d) = sawait d
     \<and> (sawait d \<noteq> None \<longrightarrow> seq_step h d w = (d, w))
     \<and> (\<forall>v ob w1. \<not> sdone d \<and> sawait d = None
            \<and> observe_next (sobs d) w = (Inr (Some v), ob, w1) \<longrightarrow>
          latest (trace w) (BridgeSend (obridge (sobs d))) = Some v
          \<and> (\<exists>rest. slog (fst (seq_step h d w)) = slog d @ Begin v # rest))"
proof -
  have "seq_inv (fst (seq_run h evs (seq name, w0))) \<and> coherent (snd (seq_run h evs (seq name, w0)))"
    using seq_run_inv [of "(seq name, w0)" h evs] seq_inv_new assms(1) by simp
  then have i: "seq_inv d" and c: "coherent w" using assms(2) by simp_all
  have a: "alternates (slog d)" and p: "pending (slog d) = sawait d"
    using i by (simp_all add: seq_inv_def)
  have busy: "sawait d \<noteq> None \<longrightarrow> seq_step h d w = (d, w)"
    by (simp add: seq_step_def)
  have val: "\<forall>v ob w1. \<not> sdone d \<and> sawait d = None
            \<and> observe_next (sobs d) w = (Inr (Some v), ob, w1) \<longrightarrow>
          latest (trace w) (BridgeSend (obridge (sobs d))) = Some v
          \<and> (\<exists>rest. slog (fst (seq_step h d w)) = slog d @ Begin v # rest)"
  proof (intro allI impI, elim conjE)
    fix v ob w1
    assume s: "\<not> sdone d" "sawait d = None"
      "observe_next (sobs d) w = (Inr (Some v), ob, w1)"
    have "signal (bridges w (obridge (sobs d))) \<and> v = slot (bridges w (obridge (sobs d)))"
      using observe_next_value [OF s(3)] .
    then have l: "latest (trace w) (BridgeSend (obridge (sobs d))) = Some v"
      using c by (simp add: coherent_def)
    show "latest (trace w) (BridgeSend (obridge (sobs d))) = Some v
          \<and> (\<exists>rest. slog (fst (seq_step h d w)) = slog d @ Begin v # rest)"
      using l seq_step_begins [OF s, of h] by simp
  qed
  show ?thesis using a p busy val by (intro conjI)
qed

lemmas seq_run_defs =
  seq_def observe_def init_def uninitialised_def
  seq_step_def seq_handler_ends_def seq_cancel_def seq_finalize_def
  observe_next_def observe_start_def observe_wait_def observe_exit_def observe_finally_def
  add_subscriber_def setattr_def fan_out_def state_init_def slow_handler_def Let_def

theorem sequential_driver_witness:
  "coherent (init uninitialised)
   \<and> slog (fst busy_run) = [Begin (PStr ''A'')]
   \<and> sawait (fst busy_run) = Some (PStr ''A'')
   \<and> seq_step slow_handler (fst busy_run) (snd busy_run) = busy_run
   \<and> slog (fst slow_run) = [Begin (PStr ''A''), End (PStr ''A'')]
   \<and> sawait (fst slow_run) = None \<and> \<not> sdone (fst slow_run)
   \<and> map arg (trace (snd slow_run)) = [PStr ''A'', PInt 1, PInt 2]
   \<and> fst (observe_next (sobs (fst slow_run)) (snd slow_run)) = Inr (Some (PInt 2))
   \<and> latest (trace (snd slow_run)) (BridgeSend (obridge (sobs (fst slow_run)))) = Some (PInt 2)
   \<and> slog (fst (seq_step slow_handler (fst slow_run) (snd slow_run)))
       = [Begin (PStr ''A''), End (PStr ''A''), Begin (PInt 2)]"
proof -
  have c: "coherent (init uninitialised)"
    by (simp add: coherent_def init_def uninitialised_def state_init_def)
  have rb: "seq_run slow_handler
       [SqStep, SqSet ''x'' (PStr ''A''), SqStep, SqSet ''x'' (PInt 1), SqSet ''x'' (PInt 2),
        SqStep]
       (seq ''x'', init uninitialised) = (fst busy_run, snd busy_run)"
    by (simp add: busy_run_def)
  have rs: "seq_run slow_handler
       [SqStep, SqSet ''x'' (PStr ''A''), SqStep, SqSet ''x'' (PInt 1), SqSet ''x'' (PInt 2),
        SqStep, SqHandlerEnds True]
       (seq ''x'', init uninitialised) = (fst slow_run, snd slow_run)"
    by (simp add: slow_run_def)
  have b1: "slog (fst busy_run) = [Begin (PStr ''A'')]"
    by (simp add: busy_run_def seq_run_defs)
  have b2: "sawait (fst busy_run) = Some (PStr ''A'')"
    by (simp add: busy_run_def seq_run_defs)
  have s1: "slog (fst slow_run) = [Begin (PStr ''A''), End (PStr ''A'')]"
    by (simp add: slow_run_def seq_run_defs)
  have s2: "sawait (fst slow_run) = None" "\<not> sdone (fst slow_run)"
    by (simp_all add: slow_run_def seq_run_defs)
  have s3: "map arg (trace (snd slow_run)) = [PStr ''A'', PInt 1, PInt 2]"
    by (simp add: slow_run_def seq_run_defs)
  have s4: "fst (observe_next (sobs (fst slow_run)) (snd slow_run)) = Inr (Some (PInt 2))"
    by (simp add: slow_run_def seq_run_defs)
  obtain ob w1 where o: "observe_next (sobs (fst slow_run)) (snd slow_run) = (Inr (Some (PInt 2)), ob, w1)"
    using s4 by (cases "observe_next (sobs (fst slow_run)) (snd slow_run)") auto
  have s5: "slog (fst (seq_step slow_handler (fst slow_run) (snd slow_run)))
       = [Begin (PStr ''A''), End (PStr ''A''), Begin (PInt 2)]"
    using o s1 s2 by (simp add: seq_step_def slow_handler_def)
  note tb = sequential_driver [OF c rb]
  note ts = sequential_driver [OF c rs]
  have busy: "seq_step slow_handler (fst busy_run) (snd busy_run) = busy_run"
    using tb b2 by simp
  have lat: "latest (trace (snd slow_run)) (BridgeSend (obridge (sobs (fst slow_run)))) = Some (PInt 2)"
    using ts s2 o by blast
  show ?thesis using c b1 b2 busy s1 s2 s3 s4 lat s5 by simp
qed

end
